theory Spec2Isabelle
  imports Main
begin

section \<open>The PNG to WebP converter and its conversion cache (src/builder/converter.py)\<close>

text \<open>
  The module converts a directory tree of PNG files into a mirrored tree of WebP files and
  keeps a lock file (a JSON document) of the conversions it has made, so that unchanged
  files are skipped on the next run. The embedding follows the module function by function:
  \<^item> Python exceptions are values of \<open>error\<close>; a function that can raise returns
    \<open>error + 'a\<close>, with \<open>Inl\<close> for the exception;
  \<^item> a Python \<open>dict\<close> is an association list in insertion order with \<open>dict_set\<close> for
    item assignment; two dicts are equal in Python when they hold the same items, whatever
    the order, which is equality of \<open>map_of\<close>;
  \<^item> a \<open>Path\<close> is the list of its components, \<open>str\<close> of a path joins them with a slash;
  \<^item> the input tree is read only and is a value of \<open>node\<close>; the output directory, where the
    WebP files and the lock file are written, is a map from paths to files and directories
    held in the state. The input and the output directory are thus taken to be disjoint;
  \<^item> SHA-256, the PIL encoder and the clock are parameters (\<open>env\<close>);
  \<^item> logging, the calls of the encoder, the creation of directories and the locks and
    semaphores that are created, acquired and released are recorded as events in the state;
  \<^item> \<open>await asyncio.gather\<close> on the tasks runs them one after another in the order of the
    list. What the event loop may interleave is the subject of the section on the semaphore.
\<close>

subsection \<open>Values\<close>

datatype error =
    FileExistsError | NotADirectoryError | FileNotFoundError | IsADirectoryError
  | KeyError | TypeError | AttributeError | ValueError | JSONDecodeError

text \<open>JSON values as far as the module writes them: strings, integers and objects.\<close>

datatype jval = JStr string | JInt int | JObj "(string \<times> jval) list"

type_synonym pydict = "(string \<times> jval) list"

type_synonym path = "string list"

text \<open>
  The content of a file: \<open>Json d\<close> is a file whose text is the JSON object \<open>d\<close> (with the
  items in the order of the text, a key possibly more than once), \<open>Raw b\<close> any other file.
\<close>

datatype content = Raw string | Json pydict

datatype fnode = OFile content | ODir

type_synonym filesys = "path \<Rightarrow> fnode option"

text \<open>The input tree: the entries of a directory in the order the system lists them.\<close>

datatype node = File content | Dir "(string \<times> node) list"

datatype level = INFO | ERROR

datatype event =
    Log level string
  | Mkdir path
  | Encode path path
  | NewLock nat
  | NewSemaphore nat nat
  | Acquire nat
  | Release nat

record world =
  ofs :: filesys
  ticks :: nat
  next_obj :: nat
  trace :: "event list"

text \<open>The options of the encoder (\<open>WEBP_SETTINGS\<close>).\<close>

record settings =
  quality :: nat
  webp_method :: nat
  lossless :: bool
  exact :: bool
  minimize_size :: bool
  alpha_quality :: nat

text \<open>
  What the module takes from outside: SHA-256 as a hexadecimal string, the encoder of PIL
  (\<open>Image.open(input).save(output, "WEBP", **settings)\<close>), which gives the bytes of the WebP
  file or raises an exception with a message, and the readings of the clock.
\<close>

record env =
  sha256 :: "content \<Rightarrow> string"
  encoder :: "settings \<Rightarrow> content \<Rightarrow> string + string"
  now :: "nat \<Rightarrow> string"

definition bind_err :: "error + 'a \<Rightarrow> ('a \<Rightarrow> error + 'b) \<Rightarrow> error + 'b" where
  "bind_err r f = (case r of Inl e \<Rightarrow> Inl e | Inr x \<Rightarrow> f x)"

definition emit :: "event \<Rightarrow> world \<Rightarrow> world" where
  "emit ev w = w\<lparr>trace := trace w @ [ev]\<rparr>"

text \<open>\<open>datetime.now().isoformat()\<close>: the next reading of the clock.\<close>

definition read_clock :: "env \<Rightarrow> world \<Rightarrow> string \<times> world" where
  "read_clock E w = (now E (ticks w), w\<lparr>ticks := Suc (ticks w)\<rparr>)"

text \<open>A new Python object (a lock or a semaphore) is identified by a fresh number.\<close>

definition new_object :: "world \<Rightarrow> nat \<times> world" where
  "new_object w = (next_obj w, w\<lparr>next_obj := Suc (next_obj w)\<rparr>)"

subsection \<open>Dictionaries\<close>

text \<open>\<open>d[k] = v\<close>: an existing key keeps its place, a new key goes to the end.\<close>

fun dict_set :: "'k \<Rightarrow> 'v \<Rightarrow> ('k \<times> 'v) list \<Rightarrow> ('k \<times> 'v) list" where
  "dict_set k v [] = [(k, v)]"
| "dict_set k v ((k', v') # d) =
     (if k = k' then (k', v) # d else (k', v') # dict_set k v d)"

text \<open>\<open>d.update(other)\<close> for a dict \<open>other\<close>.\<close>

definition dict_update :: "('k \<times> 'v) list \<Rightarrow> ('k \<times> 'v) list \<Rightarrow> ('k \<times> 'v) list" where
  "dict_update d other = foldl (\<lambda>acc kv. dict_set (fst kv) (snd kv) acc) d other"

text \<open>
  \<open>json.load\<close> builds a dict from every object of the text: of a key that occurs more than
  once the last value stays.
\<close>

fun json_norm :: "jval \<Rightarrow> jval" where
  "json_norm (JObj kvs) = JObj (dict_update [] (map (\<lambda>kv. (fst kv, json_norm (snd kv))) kvs))"
| "json_norm (JStr s) = JStr s"
| "json_norm (JInt n) = JInt n"

definition json_load :: "content \<Rightarrow> error + pydict" where
  "json_load c =
     (case c of
        Raw b \<Rightarrow> Inl JSONDecodeError
      | Json d \<Rightarrow> Inr (dict_update [] (map (\<lambda>kv. (fst kv, json_norm (snd kv))) d)))"

subsection \<open>Paths\<close>

fun join_path :: "string list \<Rightarrow> string" where
  "join_path [] = []"
| "join_path [c] = c"
| "join_path (c # cs) = c @ ''/'' @ join_path cs"

text \<open>\<open>str(p)\<close>; the path without components is the current directory.\<close>

definition str_path :: "path \<Rightarrow> string" where
  "str_path p = (if p = [] then ''.'' else join_path p)"

text \<open>\<open>p.parent\<close>, \<open>p.name\<close>; they are used on paths with a component only.\<close>

definition parent :: "path \<Rightarrow> path" where
  "parent p = butlast p"

definition name_of :: "path \<Rightarrow> string" where
  "name_of p = (if p = [] then [] else last p)"

text \<open>
  \<open>p.stem\<close>: the name without its suffix. The suffix starts at the last dot of the name,
  unless that dot is the first or the last character.
\<close>

fun rfind_dot :: "string \<Rightarrow> nat option" where
  "rfind_dot [] = None"
| "rfind_dot (c # cs) =
     (case rfind_dot cs of
        Some i \<Rightarrow> Some (Suc i)
      | None \<Rightarrow> if c = CHR ''.'' then Some 0 else None)"

definition stem :: "string \<Rightarrow> string" where
  "stem n =
     (case rfind_dot n of
        None \<Rightarrow> n
      | Some i \<Rightarrow> if 0 < i \<and> i < length n - 1 then take i n else n)"

text \<open>\<open>p.relative_to(base)\<close>.\<close>

definition relative_to :: "path \<Rightarrow> path \<Rightarrow> error + path" where
  "relative_to p base =
     (if take (length base) p = base then Inr (drop (length base) p) else Inl ValueError)"

text \<open>The pattern \<open>*.png\<close> of \<open>glob\<close>.\<close>

definition is_png :: "string \<Rightarrow> bool" where
  "is_png n = (length n \<ge> 4 \<and> drop (length n - 4) n = ''.png'')"

subsection \<open>The output directory\<close>

text \<open>The path without components is the directory the process runs in; it always exists.\<close>

definition lookup :: "filesys \<Rightarrow> path \<Rightarrow> fnode option" where
  "lookup fs p = (if p = [] then Some ODir else fs p)"

definition exists_path :: "filesys \<Rightarrow> path \<Rightarrow> bool" where
  "exists_path fs p = (lookup fs p \<noteq> None)"

definition is_dir :: "filesys \<Rightarrow> path \<Rightarrow> bool" where
  "is_dir fs p = (lookup fs p = Some ODir)"

text \<open>\<open>os.mkdir(p)\<close>.\<close>

definition os_mkdir :: "path \<Rightarrow> filesys \<Rightarrow> error + filesys" where
  "os_mkdir p fs =
     (if exists_path fs p then Inl FileExistsError
      else case lookup fs (parent p) of
             None \<Rightarrow> Inl FileNotFoundError
           | Some (OFile c) \<Rightarrow> Inl NotADirectoryError
           | Some ODir \<Rightarrow> Inr (fs(p \<mapsto> ODir)))"

text \<open>
  \<open>p.mkdir(parents=False, exist_ok=True)\<close> of pathlib: an error of \<open>os.mkdir\<close> other than
  a missing parent is ignored when the path is a directory.
\<close>

definition mkdir_exist_ok :: "path \<Rightarrow> filesys \<Rightarrow> error + filesys" where
  "mkdir_exist_ok p fs =
     (case os_mkdir p fs of
        Inr fs' \<Rightarrow> Inr fs'
      | Inl FileNotFoundError \<Rightarrow> Inl FileNotFoundError
      | Inl e \<Rightarrow> if is_dir fs p then Inr fs else Inl e)"

text \<open>
  \<open>p.mkdir(parents=True, exist_ok=True)\<close> of pathlib: when the parent is missing, the parent
  is made in the same way and \<open>p\<close> is made after it.
\<close>

function mkdir_parents :: "path \<Rightarrow> filesys \<Rightarrow> error + filesys" where
  "mkdir_parents p fs =
     (case os_mkdir p fs of
        Inr fs' \<Rightarrow> Inr fs'
      | Inl FileNotFoundError \<Rightarrow>
          if p = [] then Inl FileNotFoundError
          else bind_err (mkdir_parents (butlast p) fs) (mkdir_exist_ok p)
      | Inl e \<Rightarrow> if is_dir fs p then Inr fs else Inl e)"
  by pat_completeness auto
termination
  by (relation "measure (\<lambda>(p, fs). length p)") auto

text \<open>\<open>open(p, "r")\<close> and reading the file.\<close>

definition read_file :: "path \<Rightarrow> filesys \<Rightarrow> error + content" where
  "read_file p fs =
     (case lookup fs p of
        None \<Rightarrow> Inl FileNotFoundError
      | Some ODir \<Rightarrow> Inl IsADirectoryError
      | Some (OFile c) \<Rightarrow> Inr c)"

text \<open>\<open>open(p, "w")\<close>: the file is created or truncated to the empty file.\<close>

definition open_w :: "path \<Rightarrow> filesys \<Rightarrow> error + filesys" where
  "open_w p fs =
     (case lookup fs p of
        Some ODir \<Rightarrow> Inl IsADirectoryError
      | Some (OFile c) \<Rightarrow> Inr (fs(p \<mapsto> OFile (Raw [])))
      | None \<Rightarrow>
          (case lookup fs (parent p) of
             None \<Rightarrow> Inl FileNotFoundError
           | Some (OFile c) \<Rightarrow> Inl NotADirectoryError
           | Some ODir \<Rightarrow> Inr (fs(p \<mapsto> OFile (Raw [])))))"

text \<open>
  The operations on files that a function issues, in order. A function that writes a file
  runs such a list; the states after its proper prefixes are the states a crash can leave.
\<close>

datatype fs_op = OpenTruncate path | WriteAll path content | Rename path path

fun exec_op :: "fs_op \<Rightarrow> filesys \<Rightarrow> error + filesys" where
  "exec_op (OpenTruncate p) fs = open_w p fs"
| "exec_op (WriteAll p c) fs = Inr (fs(p \<mapsto> OFile c))"
| "exec_op (Rename p q) fs =
     (case lookup fs p of
        None \<Rightarrow> Inl FileNotFoundError
      | Some n \<Rightarrow> Inr (fs(p := None, q \<mapsto> n)))"

fun exec_ops :: "fs_op list \<Rightarrow> filesys \<Rightarrow> error + filesys" where
  "exec_ops [] fs = Inr fs"
| "exec_ops (opn # ops) fs = bind_err (exec_op opn fs) (exec_ops ops)"

text \<open>\<open>_calculate_file_hash\<close>, \<open>calculate_file_hash\<close>: SHA-256 of the bytes of the file.\<close>

definition calculate_file_hash :: "env \<Rightarrow> path \<Rightarrow> filesys \<Rightarrow> error + string" where
  "calculate_file_hash E p fs = bind_err (read_file p fs) (\<lambda>c. Inr (sha256 E c))"

subsection \<open>The lock file: \<open>load_lock_file\<close>\<close>

text \<open>
  \<open>flat_hashes.update(folder_files)\<close> for a value of the document: a dict is merged, the
  empty string is an empty sequence of items, any other string has elements that are not
  pairs, an integer cannot be iterated.
\<close>

fun flat_update :: "pydict \<Rightarrow> jval \<Rightarrow> error + pydict" where
  "flat_update d (JObj kvs) = Inr (dict_update d kvs)"
| "flat_update d (JStr s) = (if s = [] then Inr d else Inl ValueError)"
| "flat_update d (JInt n) = Inl TypeError"

fun flatten :: "pydict \<Rightarrow> jval list \<Rightarrow> error + pydict" where
  "flatten acc [] = Inr acc"
| "flatten acc (v # vs) = bind_err (flat_update acc v) (\<lambda>acc'. flatten acc' vs)"

text \<open>The body of \<open>load_lock_file\<close> after \<open>json.load\<close>.\<close>

definition flatten_data :: "pydict \<Rightarrow> error + pydict" where
  "flatten_data data =
     (case map_of data ''files'' of
        None \<Rightarrow> Inr data
      | Some (JObj folders) \<Rightarrow> flatten [] (map snd folders)
      | Some v \<Rightarrow> Inl AttributeError)"

definition load_lock_file :: "path \<Rightarrow> world \<Rightarrow> error + (pydict \<times> world)" where
  "load_lock_file lock_file w =
     (if exists_path (ofs w) lock_file then
        (let (l, w1) = new_object w;
             w2 = emit (Acquire l) (emit (NewLock l) w1)
         in bind_err (read_file lock_file (ofs w2)) (\<lambda>c.
            bind_err (json_load c) (\<lambda>data.
            bind_err (flatten_data data) (\<lambda>flat.
            Inr (flat, emit (Release l) w2)))))
      else Inr ([], w))"

subsection \<open>The lock file: \<open>save_lock_file\<close>\<close>

text \<open>\<open>file_data.get("folder", "root")\<close>.\<close>

fun get_folder :: "jval \<Rightarrow> error + jval" where
  "get_folder (JObj e) =
     (case map_of e ''folder'' of None \<Rightarrow> Inr (JStr ''root'') | Some f \<Rightarrow> Inr f)"
| "get_folder (JStr s) = Inl AttributeError"
| "get_folder (JInt n) = Inl AttributeError"

text \<open>A dict cannot be the key of a dict.\<close>

fun hashable :: "jval \<Rightarrow> bool" where
  "hashable (JObj e) = False"
| "hashable (JStr s) = True"
| "hashable (JInt n) = True"

text \<open>One round of the loop over \<open>hashes.items()\<close>; \<open>files\<close> is \<open>organized_hashes["files"]\<close>.\<close>

definition organize_step ::
  "(jval \<times> pydict) list \<Rightarrow> string \<times> jval \<Rightarrow> error + (jval \<times> pydict) list" where
  "organize_step files item =
     bind_err (get_folder (snd item)) (\<lambda>folder.
       if \<not> hashable folder then Inl TypeError
       else
         (let files1 = (if folder \<notin> fst ` set files then dict_set folder [] files else files)
          in case map_of files1 folder of
               None \<Rightarrow> Inl KeyError
             | Some grp \<Rightarrow>
                 Inr (dict_set folder (dict_set (fst item) (snd item) grp) files1)))"

fun organize :: "(jval \<times> pydict) list \<Rightarrow> pydict \<Rightarrow> error + (jval \<times> pydict) list" where
  "organize files [] = Inr files"
| "organize files (item # items) =
     bind_err (organize_step files item) (\<lambda>files'. organize files' items)"

text \<open>\<open>str(n)\<close> of an integer, which \<open>json.dump\<close> writes for a key that is an integer.\<close>

fun digits :: "nat \<Rightarrow> string" where
  "digits n = (if n < 10 then [char_of (48 + n)] else digits (n div 10) @ [char_of (48 + n mod 10)])"

definition str_int :: "int \<Rightarrow> string" where
  "str_int i = (if i < 0 then CHR ''-'' # digits (nat (- i)) else digits (nat i))"

fun json_key :: "jval \<Rightarrow> string" where
  "json_key (JStr s) = s"
| "json_key (JInt n) = str_int n"
| "json_key (JObj e) = []"

text \<open>The document that \<open>save_lock_file\<close> hands to \<open>json.dump\<close>, as the text holds it.\<close>

definition lock_document :: "string \<Rightarrow> pydict \<Rightarrow> (jval \<times> pydict) list \<Rightarrow> pydict" where
  "lock_document t hashes files =
     [(''metadata'', JObj [(''last_update'', JStr t),
                           (''total_files'', JInt (int (length hashes))),
                           (''version'', JStr ''1.0'')]),
      (''files'', JObj (map (\<lambda>g. (json_key (fst g), JObj (snd g))) files))]"

text \<open>What \<open>with open(lock_file, "w") as f: json.dump(organized_hashes, f, indent=4)\<close> does.\<close>

definition save_ops :: "path \<Rightarrow> pydict \<Rightarrow> fs_op list" where
  "save_ops lock_file doc = [OpenTruncate lock_file, WriteAll lock_file (Json doc)]"

definition save_lock_file :: "env \<Rightarrow> path \<Rightarrow> pydict \<Rightarrow> world \<Rightarrow> error + world" where
  "save_lock_file E lock_file hashes w =
     (let (t, w1) = read_clock E w
      in bind_err (organize [] hashes) (\<lambda>files.
           (let (l, w2) = new_object w1;
                w3 = emit (Acquire l) (emit (NewLock l) w2)
            in bind_err (exec_ops (save_ops lock_file (lock_document t hashes files)) (ofs w3))
                 (\<lambda>fs. Inr (emit (Release l) (w3\<lparr>ofs := fs\<rparr>))))))"

subsection \<open>Converting a file: \<open>convert_image\<close>, \<open>process_file\<close>\<close>

definition WEBP_SETTINGS :: settings where
  "WEBP_SETTINGS =
     \<lparr>quality = 85, webp_method = 6, lossless = False, exact = True, minimize_size = True,
      alpha_quality = 90\<rparr>"

definition MAX_CONCURRENT_OPERATIONS :: nat where
  "MAX_CONCURRENT_OPERATIONS = 5"

text \<open>The text of an exception of the file system, \<open>str(e)\<close>: here the name of its class.\<close>

fun str_error :: "error \<Rightarrow> string" where
  "str_error FileExistsError = ''FileExistsError''"
| "str_error NotADirectoryError = ''NotADirectoryError''"
| "str_error FileNotFoundError = ''FileNotFoundError''"
| "str_error IsADirectoryError = ''IsADirectoryError''"
| "str_error KeyError = ''KeyError''"
| "str_error TypeError = ''TypeError''"
| "str_error AttributeError = ''AttributeError''"
| "str_error ValueError = ''ValueError''"
| "str_error JSONDecodeError = ''JSONDecodeError''"

text \<open>
  The \<open>try\<close> block of \<open>convert_image\<close>: the image is encoded and written to the output path,
  then the output file is hashed. \<open>Inl\<close> is the message of the exception that was raised.
  An encoder that raises leaves the output directory as it is.
\<close>

definition try_convert ::
  "env \<Rightarrow> content \<Rightarrow> path \<Rightarrow> settings \<Rightarrow> filesys \<Rightarrow> (string + string) \<times> filesys" where
  "try_convert E c output_path st fs =
     (case encoder E st c of
        Inl msg \<Rightarrow> (Inl msg, fs)
      | Inr webp \<Rightarrow>
          (case exec_ops [OpenTruncate output_path, WriteAll output_path (Raw webp)] fs of
             Inl e \<Rightarrow> (Inl (str_error e), fs)
           | Inr fs1 \<Rightarrow>
               (case calculate_file_hash E output_path fs1 of
                  Inl e \<Rightarrow> (Inl (str_error e), fs1)
                | Inr h \<Rightarrow> (Inr h, fs1))))"

text \<open>\<open>convert_image\<close>; \<open>c\<close> is the content of the file at \<open>input_path\<close>.\<close>

definition convert_image ::
  "env \<Rightarrow> path \<Rightarrow> content \<Rightarrow> path \<Rightarrow> settings \<Rightarrow> nat \<Rightarrow> world \<Rightarrow> string option \<times> world" where
  "convert_image E input_path c output_path st semaphore w =
     (let w1 = emit (Encode input_path output_path) (emit (Acquire semaphore) w)
      in case try_convert E c output_path st (ofs w1) of
           (Inr h, fs) \<Rightarrow> (Some h, emit (Release semaphore) (w1\<lparr>ofs := fs\<rparr>))
         | (Inl msg, fs) \<Rightarrow>
             (None,
              emit (Release semaphore)
                (emit (Log ERROR (''Error converting '' @ str_path input_path @ '': '' @ msg))
                   (w1\<lparr>ofs := fs\<rparr>))))"

text \<open>Opening an entry of the input tree and reading it, as \<open>_calculate_file_hash\<close> does.\<close>

fun read_node :: "node \<Rightarrow> error + content" where
  "read_node (File c) = Inr c"
| "read_node (Dir es) = Inl IsADirectoryError"

text \<open>
  The condition of the \<open>if\<close> in \<open>process_file\<close>, evaluated from left to right: the entry of
  the cache that is reused, if any.
\<close>

definition reusable :: "pydict \<Rightarrow> string \<Rightarrow> string \<Rightarrow> path \<Rightarrow> filesys \<Rightarrow> error + jval option" where
  "reusable conversion_hashes hash_key input_hash webp_file fs =
     (case map_of conversion_hashes hash_key of
        None \<Rightarrow> Inr None
      | Some (JObj e) \<Rightarrow>
          (case map_of e ''input_hash'' of
             None \<Rightarrow> Inl KeyError
           | Some v \<Rightarrow>
               Inr (if v = JStr input_hash \<and> exists_path fs webp_file then Some (JObj e)
                    else None))
      | Some v \<Rightarrow> Inl TypeError)"

definition new_entry :: "string \<Rightarrow> string \<Rightarrow> path \<Rightarrow> path \<Rightarrow> path \<Rightarrow> string \<Rightarrow> jval" where
  "new_entry input_hash output_hash relative_path png_file webp_file t =
     JObj [(''input_hash'', JStr input_hash),
           (''output_hash'', JStr output_hash),
           (''folder'', JStr (str_path (parent relative_path))),
           (''original_name'', JStr (name_of png_file)),
           (''webp_name'', JStr (name_of webp_file)),
           (''last_conversion'', JStr t)]"

text \<open>
  Local values of \<open>process_file\<close>: \<open>webp_file\<close>, and the label \<open>[folder_display] name\<close> of
  its log messages, where \<open>folder_display\<close> is \<open>root\<close> for a file directly in the input root.
\<close>

definition webp_file_of :: "path \<Rightarrow> path \<Rightarrow> path" where
  "webp_file_of output_path png_file = output_path @ [stem (name_of png_file) @ ''.webp'']"

definition folder_display :: "path \<Rightarrow> string" where
  "folder_display relative_path =
     (let folder_structure = str_path (parent relative_path)
      in if folder_structure = ''.'' then ''root'' else folder_structure)"

definition label :: "path \<Rightarrow> path \<Rightarrow> string" where
  "label relative_path png_file =
     ''['' @ folder_display relative_path @ ''] '' @ name_of png_file"

text \<open>\<open>process_file\<close>; \<open>nd\<close> is the entry of the input tree at \<open>png_file\<close>.\<close>

definition process_file ::
  "env \<Rightarrow> path \<Rightarrow> node \<Rightarrow> path \<Rightarrow> pydict \<Rightarrow> path \<Rightarrow> nat \<Rightarrow> pydict \<Rightarrow> world
   \<Rightarrow> error + (pydict \<times> world)" where
  "process_file E png_file nd output_path conversion_hashes base_input_path semaphore
     new_hashes w =
     bind_err (relative_to png_file base_input_path) (\<lambda>relative_path.
     bind_err (read_node nd) (\<lambda>c.
       (let webp_file = webp_file_of output_path png_file;
            input_hash = sha256 E c;
            hash_key = str_path relative_path
        in bind_err (reusable conversion_hashes hash_key input_hash webp_file (ofs w)) (\<lambda>r.
             case r of
               Some entry \<Rightarrow>
                 Inr (dict_set hash_key entry new_hashes,
                      emit (Log INFO (''Skipping '' @ label relative_path png_file
                                      @ '' - already converted and unchanged'')) w)
             | None \<Rightarrow>
                 (let (output_hash, w1) =
                        convert_image E png_file c webp_file WEBP_SETTINGS semaphore
                          (emit (Log INFO (''Converting '' @ label relative_path png_file)) w)
                  in if output_hash \<noteq> None \<and> output_hash \<noteq> Some [] then
                       (let (t, w2) = read_clock E w1
                        in Inr (dict_set hash_key
                                  (new_entry input_hash (the output_hash) relative_path png_file
                                     webp_file t)
                                  new_hashes,
                                emit (Log INFO (''Successfully converted ''
                                                @ label relative_path png_file)) w2))
                     else Inr (new_hashes,
                               emit (Log ERROR (''Failed to convert ''
                                                @ label relative_path png_file)) w1))))))"

subsection \<open>Walking the tree: \<open>process_directory\<close>, \<open>async_main\<close>\<close>

text \<open>The tasks for the files that \<open>glob("*.png")\<close> yields, awaited in order.\<close>

fun run_files ::
  "env \<Rightarrow> path \<Rightarrow> path \<Rightarrow> pydict \<Rightarrow> path \<Rightarrow> nat \<Rightarrow> (string \<times> node) list \<Rightarrow> pydict \<Rightarrow> world
   \<Rightarrow> error + (pydict \<times> world)" where
  "run_files E input_path output_path conversion_hashes base semaphore [] new_hashes w =
     Inr (new_hashes, w)"
| "run_files E input_path output_path conversion_hashes base semaphore (e # es) new_hashes w =
     (if is_png (fst e) then
        bind_err (process_file E (input_path @ [fst e]) (snd e) output_path conversion_hashes
                    base semaphore new_hashes w)
          (\<lambda>(new_hashes', w'). run_files E input_path output_path conversion_hashes base
                                semaphore es new_hashes' w')
      else run_files E input_path output_path conversion_hashes base semaphore es new_hashes w)"

text \<open>
  \<open>process_directory\<close> on the directory \<open>input_path\<close> with the entries \<open>entries\<close>, and the
  tasks for its subdirectories, awaited in order; their results are the dicts that
  \<open>gather\<close> returns.
\<close>

fun process_directory ::
  "env \<Rightarrow> path \<Rightarrow> (string \<times> node) list \<Rightarrow> path \<Rightarrow> pydict \<Rightarrow> path \<Rightarrow> world
   \<Rightarrow> error + (pydict \<times> world)"
and run_subdirs ::
  "env \<Rightarrow> path \<Rightarrow> (string \<times> node) list \<Rightarrow> path \<Rightarrow> pydict \<Rightarrow> path \<Rightarrow> world
   \<Rightarrow> error + (pydict list \<times> world)" where
  "process_directory E input_path entries output_path conversion_hashes base w =
     (let w1 = emit (Mkdir output_path) w
      in bind_err (mkdir_parents output_path (ofs w1)) (\<lambda>fs.
           (let (semaphore, w2) = new_object (w1\<lparr>ofs := fs\<rparr>);
                w3 = emit (NewSemaphore semaphore MAX_CONCURRENT_OPERATIONS) w2
            in bind_err (run_files E input_path output_path conversion_hashes base semaphore
                           entries [] w3) (\<lambda>(new_hashes, w4).
               bind_err (run_subdirs E input_path entries output_path conversion_hashes base w4)
                 (\<lambda>(results, w5). Inr (foldl dict_update new_hashes results, w5))))))"
| "run_subdirs E input_path [] output_path conversion_hashes base w = Inr ([], w)"
| "run_subdirs E input_path ((name, File c) # es) output_path conversion_hashes base w =
     run_subdirs E input_path es output_path conversion_hashes base w"
| "run_subdirs E input_path ((name, Dir sub) # es) output_path conversion_hashes base w =
     bind_err (process_directory E (input_path @ [name]) sub (output_path @ [name])
                 conversion_hashes base w) (\<lambda>(result, w1).
     bind_err (run_subdirs E input_path es output_path conversion_hashes base w1)
       (\<lambda>(results, w2). Inr (result # results, w2)))"

text \<open>
  \<open>async_main\<close>: \<open>tree\<close> holds the entries of the input directory. The result is the new
  cache, which \<open>save_lock_file\<close> has written, and the state.
\<close>

definition async_main ::
  "env \<Rightarrow> path \<Rightarrow> (string \<times> node) list \<Rightarrow> path \<Rightarrow> world \<Rightarrow> error + (pydict \<times> world)" where
  "async_main E input_path tree output_path w =
     (let lock_file = output_path @ [''conversion.lock''];
          w1 = emit (Mkdir output_path) w
      in bind_err (mkdir_parents output_path (ofs w1)) (\<lambda>fs.
         bind_err (load_lock_file lock_file (w1\<lparr>ofs := fs\<rparr>)) (\<lambda>(conversion_hashes, w2).
         bind_err (process_directory E input_path tree output_path conversion_hashes input_path w2)
           (\<lambda>(new_hashes, w3).
         bind_err (save_lock_file E lock_file new_hashes w3) (\<lambda>w4.
           Inr (new_hashes, emit (Log INFO ''Conversion process completed!'') w4))))))"

subsection \<open>Reading the events of a run\<close>

text \<open>The calls of the encoder and the errors that were logged.\<close>

fun encodes :: "event list \<Rightarrow> (path \<times> path) list" where
  "encodes [] = []"
| "encodes (Encode i out # evs) = (i, out) # encodes evs"
| "encodes (ev # evs) = encodes evs"

fun error_logs :: "event list \<Rightarrow> string list" where
  "error_logs [] = []"
| "error_logs (Log ERROR m # evs) = m # error_logs evs"
| "error_logs (ev # evs) = error_logs evs"

subsection \<open>The semaphore under the event loop\<close>

text \<open>
  A conversion runs its encoder inside \<open>async with semaphore\<close>. The conversions of a run,
  each with the semaphore it was given, are read off the events of the run.
\<close>

fun conversions :: "event list \<Rightarrow> (nat \<times> path) list" where
  "conversions (Acquire s # Encode i out # evs) = (s, i) # conversions evs"
| "conversions (ev # evs) = conversions evs"
| "conversions [] = []"

text \<open>
  \<open>gather\<close> starts all tasks, and the event loop switches between them wherever they await.
  The conversions that can be inside their \<open>async with\<close> block at the same instant: a
  conversion enters when its own semaphore, created with \<open>n\<close> permits, has fewer than \<open>n\<close>
  holders, and leaves at any time.
\<close>

inductive in_flight :: "event list \<Rightarrow> (nat \<times> path) list \<Rightarrow> bool" for tr where
  idle: "in_flight tr []"
| enter:
    "in_flight tr R \<Longrightarrow> j \<in> set (conversions tr) \<Longrightarrow> j \<notin> set R \<Longrightarrow>
     NewSemaphore (fst j) n \<in> set tr \<Longrightarrow> length (filter (\<lambda>k. fst k = fst j) R) < n \<Longrightarrow>
     in_flight tr (j # R)"
| leave: "in_flight tr R \<Longrightarrow> j \<in> set R \<Longrightarrow> in_flight tr (remove1 j R)"

subsection \<open>The files and directories of an input tree\<close>

text \<open>
  The PNG files of a tree with their paths relative to the input root, and its directories,
  in the order \<open>process_directory\<close> comes to them; \<open>rel\<close> is the path of the directory.
\<close>

fun png_files :: "path \<Rightarrow> (string \<times> node) list \<Rightarrow> (path \<times> node) list"
and png_files_below :: "path \<Rightarrow> (string \<times> node) list \<Rightarrow> (path \<times> node) list" where
  "png_files rel entries =
     map (\<lambda>e. (rel @ [fst e], snd e)) (filter (\<lambda>e. is_png (fst e)) entries)
     @ png_files_below rel entries"
| "png_files_below rel [] = []"
| "png_files_below rel ((name, File c) # es) = png_files_below rel es"
| "png_files_below rel ((name, Dir sub) # es) =
     png_files (rel @ [name]) sub @ png_files_below rel es"

fun directories :: "path \<Rightarrow> (string \<times> node) list \<Rightarrow> path list"
and directories_below :: "path \<Rightarrow> (string \<times> node) list \<Rightarrow> path list" where
  "directories rel entries = rel # directories_below rel entries"
| "directories_below rel [] = []"
| "directories_below rel ((name, File c) # es) = directories_below rel es"
| "directories_below rel ((name, Dir sub) # es) =
     directories (rel @ [name]) sub @ directories_below rel es"

subsection \<open>Notions used in the properties\<close>

text \<open>
  A cache as the type annotations of the module have it (\<open>Dict[str, Dict[str, str]]\<close>): a dict
  whose values are dicts of strings.
\<close>

fun is_str :: "jval \<Rightarrow> bool" where
  "is_str (JStr s) = True"
| "is_str v = False"

fun entry_ok :: "jval \<Rightarrow> bool" where
  "entry_ok (JObj e) = (distinct (map fst e) \<and> list_all is_str (map snd e))"
| "entry_ok v = False"

definition cache_ok :: "pydict \<Rightarrow> bool" where
  "cache_ok M = (distinct (map fst M) \<and> list_all entry_ok (map snd M))"

text \<open>The invariant of the loop of \<open>save_lock_file\<close>.\<close>

definition grouped :: "(jval \<times> pydict) list \<Rightarrow> pydict \<Rightarrow> bool" where
  "grouped files seen =
     (distinct (map fst files) \<and> list_all is_str (map fst files) \<and>
      distinct (map fst (concat (map snd files))) \<and>
      set (concat (map snd files)) = set seen)"

text \<open>The \<open>total_files\<close> of the metadata of a lock file.\<close>

definition total_files :: "content \<Rightarrow> jval option" where
  "total_files c =
     (case c of
        Json doc \<Rightarrow>
          (case map_of doc ''metadata'' of
             Some (JObj m) \<Rightarrow> map_of m ''total_files''
           | _ \<Rightarrow> None)
      | Raw b \<Rightarrow> None)"

text \<open>
  The flat mapping that a nested \<open>files\<close> structure stands for: the items of all folders,
  the grouping by folder forgotten; of a key that the text has in two folders the later one
  counts.
\<close>

fun is_obj :: "jval \<Rightarrow> bool" where
  "is_obj (JObj g) = True"
| "is_obj v = False"

fun group_items :: "jval \<Rightarrow> pydict" where
  "group_items (JObj g) = g"
| "group_items v = []"

definition flattened :: "(string \<times> jval) list \<Rightarrow> (string \<rightharpoonup> jval)" where
  "flattened folders = foldl (\<lambda>m f. m ++ map_of (group_items (snd f))) Map.empty folders"

text \<open>
  The states of the file system that a crash can leave while a list of operations runs:
  the states after each prefix of the list.
\<close>

definition crash_states :: "fs_op list \<Rightarrow> filesys \<Rightarrow> (error + filesys) list" where
  "crash_states ops fs = map (\<lambda>n. exec_ops (take n ops) fs) [0..<Suc (length ops)]"

text \<open>
  A file system grows into another when every directory stays a directory and every path
  that exists still exists; a state is later than another when its file system has grown
  from the other's and its events extend the other's.
\<close>

definition grows :: "filesys \<Rightarrow> filesys \<Rightarrow> bool" where
  "grows fs fs' = (\<forall>q. (is_dir fs q \<longrightarrow> is_dir fs' q) \<and> (exists_path fs q \<longrightarrow> exists_path fs' q))"

definition later :: "world \<Rightarrow> world \<Rightarrow> bool" where
  "later w w' = (grows (ofs w) (ofs w') \<and> (\<exists>evs. trace w' = trace w @ evs))"

text \<open>The events of a run.\<close>

definition run_trace :: "error + ('a \<times> world) \<Rightarrow> event list" where
  "run_trace r = (case r of Inl e \<Rightarrow> [] | Inr (x, w) \<Rightarrow> trace w)"

subsection \<open>Sample data\<close>

text \<open>
  A stand-in environment to run the functions on: the hash of a file is its content after
  a mark, the encoder rejects the file \<open>bad\<close> and files that are no images.
\<close>

definition toy_env :: env where
  "toy_env =
     \<lparr>sha256 = (\<lambda>c. case c of Raw b \<Rightarrow> ''#'' @ b | Json d \<Rightarrow> ''#json''),
      encoder = (\<lambda>st c. case c of
                   Raw b \<Rightarrow> if b = ''bad'' then Inl ''cannot identify image file''
                            else Inr (''webp '' @ b)
                 | Json d \<Rightarrow> Inl ''cannot identify image file''),
      now = (\<lambda>n. ''t'' @ digits n)\<rparr>"

definition fresh_world :: world where
  "fresh_world = \<lparr>ofs = Map.empty, ticks = 0, next_obj = 0, trace = []\<rparr>"

text \<open>The output directory exists and is empty; one PNG file has been converted into it.\<close>

definition out_world :: world where
  "out_world = fresh_world\<lparr>ofs := [[''out''] \<mapsto> ODir]\<rparr>"

definition converted_world :: world where
  "converted_world =
     fresh_world\<lparr>ofs := [[''out''] \<mapsto> ODir, [''out'', ''a.webp''] \<mapsto> OFile (Raw ''webp A'')]\<rparr>"

text \<open>Five PNG files in the input root and one in a subdirectory.\<close>

definition six_tree :: "(string \<times> node) list" where
  "six_tree =
     [(''a.png'', File (Raw ''A'')), (''b.png'', File (Raw ''B'')), (''c.png'', File (Raw ''C'')),
      (''d.png'', File (Raw ''D'')), (''e.png'', File (Raw ''E'')),
      (''sub'', Dir [(''f.png'', File (Raw ''F''))])]"

text \<open>A cache, the lock file that holds it, and an output directory with that lock file.\<close>

definition sample_cache :: pydict where
  "sample_cache =
     [(''a.png'', JObj [(''input_hash'', JStr ''#A''), (''folder'', JStr ''.'')]),
      (''d/b.png'', JObj [(''input_hash'', JStr ''#B''), (''folder'', JStr ''d'')]),
      (''c.png'', JObj [(''input_hash'', JStr ''#C''), (''folder'', JStr ''.'')])]"

definition sample_document :: pydict where
  "sample_document =
     [(''metadata'', JObj [(''last_update'', JStr ''t0''), (''total_files'', JInt 3),
                           (''version'', JStr ''1.0'')]),
      (''files'', JObj
         [(''.'', JObj [(''a.png'', JObj [(''input_hash'', JStr ''#A''), (''folder'', JStr ''.'')]),
                        (''c.png'', JObj [(''input_hash'', JStr ''#C''), (''folder'', JStr ''.'')])]),
          (''d'', JObj [(''d/b.png'', JObj [(''input_hash'', JStr ''#B''), (''folder'', JStr ''d'')])])])]"

definition locked_world :: world where
  "locked_world =
     fresh_world\<lparr>ofs := [[''out''] \<mapsto> ODir,
                         [''out'', ''conversion.lock''] \<mapsto> OFile (Json sample_document)]\<rparr>"

text \<open>A tree with a file that is no PNG file, a subdirectory and an empty directory in it.\<close>

definition sample_tree :: "(string \<times> node) list" where
  "sample_tree =
     [(''a.png'', File (Raw ''A'')), (''notes.txt'', File (Raw ''n'')),
      (''d'', Dir [(''b.png'', File (Raw ''B'')), (''e'', Dir [])]),
      (''c.png'', File (Raw ''bad''))]"

section \<open>Properties\<close>

subsection \<open>Basic facts\<close>

declare mkdir_parents.simps [simp del] process_directory.simps [simp del]

lemma bind_err_simps [simp]:
  "bind_err (Inl e) f = Inl e" "bind_err (Inr x) f = f x"
  by (simp_all add: bind_err_def)

lemma emit_simps [simp]:
  "trace (emit ev w) = trace w @ [ev]" "ofs (emit ev w) = ofs w"
  "ticks (emit ev w) = ticks w" "next_obj (emit ev w) = next_obj w"
  by (simp_all add: emit_def)

lemma encodes_append [simp]: "encodes (xs @ ys) = encodes xs @ encodes ys"
  by (induction xs rule: encodes.induct) simp_all

lemma error_logs_append [simp]: "error_logs (xs @ ys) = error_logs xs @ error_logs ys"
  by (induction xs rule: error_logs.induct) simp_all

lemma map_of_dict_set [simp]: "map_of (dict_set k v d) = (map_of d)(k \<mapsto> v)"
  by (induction d) auto

lemma butlast_Nil_iff: "butlast xs = [] \<longleftrightarrow> length xs \<le> 1"
  by (cases xs) (auto simp: le_Suc_eq)

lemma open_w_Inr:
  "open_w p fs = Inr fs' \<Longrightarrow> fs' = fs(p \<mapsto> OFile (Raw [])) \<and> lookup fs p \<noteq> Some ODir"
  by (auto simp: open_w_def split: option.splits fnode.splits)

lemma write_ops_Inr:
  assumes "exec_ops [OpenTruncate p, WriteAll p c] fs = Inr fs'"
  shows "fs' = fs(p \<mapsto> OFile c) \<and> lookup fs p \<noteq> Some ODir"
proof -
  from assms obtain fs1 where o: "open_w p fs = Inr fs1" and "fs' = fs1(p \<mapsto> OFile c)"
    by (cases "open_w p fs") auto
  with open_w_Inr [OF o] show ?thesis by simp
qed

subsection \<open>One file\<close>

text \<open>An exception in the \<open>try\<close> block of \<open>convert_image\<close> leaves the output directory as it was.\<close>

lemma try_convert_fail_fs:
  assumes "try_convert E c (out @ [n]) st fs = (Inl msg, fs')"
  shows "fs' = fs"
proof (cases "encoder E st c")
  case (Inl m)
  with assms show ?thesis by (simp add: try_convert_def)
next
  case (Inr webp)
  show ?thesis
  proof (cases "exec_ops [OpenTruncate (out @ [n]), WriteAll (out @ [n]) (Raw webp)] fs")
    case (Inl e)
    with assms Inr show ?thesis by (simp add: try_convert_def del: exec_ops.simps)
  next
    case (Inr fs1)
    from write_ops_Inr [OF Inr]
    have "calculate_file_hash E (out @ [n]) fs1 = Inr (sha256 E (Raw webp))"
      by (simp add: calculate_file_hash_def read_file_def lookup_def)
    with assms \<open>encoder E st c = Inr webp\<close> Inr show ?thesis
      by (simp add: try_convert_def del: exec_ops.simps)
  qed
qed

text \<open>\<open>process_file\<close> when the entry of the cache is reused, and when it is not.\<close>

lemma process_file_hit:
  assumes "relative_to png_file base = Inr rel"
    and "read_node nd = Inr c"
    and "reusable cache (str_path rel) (sha256 E c) (webp_file_of out png_file) (ofs w)
           = Inr (Some entry)"
  shows "process_file E png_file nd out cache base sem nh w =
           Inr (dict_set (str_path rel) entry nh,
                emit (Log INFO (''Skipping '' @ label rel png_file
                                @ '' - already converted and unchanged'')) w)"
  using assms by (simp add: process_file_def Let_def)

lemma process_file_miss:
  assumes rel: "relative_to png_file base = Inr rel"
    and rd: "read_node nd = Inr c"
    and miss: "reusable cache (str_path rel) (sha256 E c) (webp_file_of out png_file) (ofs w)
                 = Inr None"
  shows "process_file E png_file nd out cache base sem nh w =
     (case try_convert E c (webp_file_of out png_file) WEBP_SETTINGS (ofs w) of
        (Inl msg, fs) \<Rightarrow>
          Inr (nh, w\<lparr>ofs := fs, trace := trace w @
                  [Log INFO (''Converting '' @ label rel png_file),
                   Acquire sem,
                   Encode png_file (webp_file_of out png_file),
                   Log ERROR (''Error converting '' @ str_path png_file @ '': '' @ msg),
                   Release sem,
                   Log ERROR (''Failed to convert '' @ label rel png_file)]\<rparr>)
      | (Inr h, fs) \<Rightarrow>
          if h = [] then
            Inr (nh, w\<lparr>ofs := fs, trace := trace w @
                  [Log INFO (''Converting '' @ label rel png_file),
                   Acquire sem,
                   Encode png_file (webp_file_of out png_file),
                   Release sem,
                   Log ERROR (''Failed to convert '' @ label rel png_file)]\<rparr>)
          else
            Inr (dict_set (str_path rel)
                   (new_entry (sha256 E c) h rel png_file (webp_file_of out png_file)
                      (now E (ticks w))) nh,
                 w\<lparr>ofs := fs, ticks := Suc (ticks w), trace := trace w @
                  [Log INFO (''Converting '' @ label rel png_file),
                   Acquire sem,
                   Encode png_file (webp_file_of out png_file),
                   Release sem,
                   Log INFO (''Successfully converted '' @ label rel png_file)]\<rparr>))"
proof -
  obtain r fs where tc:
    "try_convert E c (webp_file_of out png_file) WEBP_SETTINGS (ofs w) = (r, fs)"
    by (cases "try_convert E c (webp_file_of out png_file) WEBP_SETTINGS (ofs w)")
  show ?thesis
    using rel rd miss tc
    by (cases r)
      (simp_all add: process_file_def Let_def convert_image_def emit_def read_clock_def)
qed

lemma label_root_example: "label [n] [''in'', n] = ''[root] '' @ n"
  by (simp add: label_def folder_display_def str_path_def parent_def name_of_def)

text \<open>
  C2. A file is skipped, with no call of the encoder, no change of the output directory and
  its old entry copied into the new cache, exactly when the cache has an entry under its
  key whose \<open>input_hash\<close> is the hash of the file as it is now and the WebP file exists;
  in every other case the encoder is called on it. The entry under the key, if there is one,
  is taken to be a dict with an \<open>input_hash\<close> (otherwise the comparison raises).
\<close>

theorem process_file_reuse_iff:
  assumes rel: "relative_to png_file base = Inr rel"
    and rd: "read_node nd = Inr c"
    and wf: "\<forall>v. map_of cache (str_path rel) = Some v \<longrightarrow>
                (\<exists>e x. v = JObj e \<and> map_of e ''input_hash'' = Some x)"
  shows "if (\<exists>e. map_of cache (str_path rel) = Some (JObj e) \<and>
              map_of e ''input_hash'' = Some (JStr (sha256 E c)) \<and>
              exists_path (ofs w) (webp_file_of out png_file))
         then (\<exists>entry. map_of cache (str_path rel) = Some entry \<and>
                 process_file E png_file nd out cache base sem nh w =
                   Inr (dict_set (str_path rel) entry nh,
                        emit (Log INFO (''Skipping '' @ label rel png_file
                                        @ '' - already converted and unchanged'')) w))
         else (\<exists>nh' w'. process_file E png_file nd out cache base sem nh w = Inr (nh', w') \<and>
                 encodes (trace w') =
                   encodes (trace w) @ [(png_file, webp_file_of out png_file)])"
proof (cases "\<exists>e. map_of cache (str_path rel) = Some (JObj e) \<and>
              map_of e ''input_hash'' = Some (JStr (sha256 E c)) \<and>
              exists_path (ofs w) (webp_file_of out png_file)")
  case True
  then obtain e where e: "map_of cache (str_path rel) = Some (JObj e)"
    and "map_of e ''input_hash'' = Some (JStr (sha256 E c))"
    and "exists_path (ofs w) (webp_file_of out png_file)"
    by blast
  then have "reusable cache (str_path rel) (sha256 E c) (webp_file_of out png_file) (ofs w)
               = Inr (Some (JObj e))"
    by (simp add: reusable_def)
  from process_file_hit [OF rel rd this] e True show ?thesis
    by auto
next
  case False
  have miss: "reusable cache (str_path rel) (sha256 E c) (webp_file_of out png_file) (ofs w)
                = Inr None"
  proof (cases "map_of cache (str_path rel)")
    case None
    then show ?thesis by (simp add: reusable_def)
  next
    case (Some v)
    with wf obtain e x where "v = JObj e" and "map_of e ''input_hash'' = Some x"
      by blast
    with Some False show ?thesis by (auto simp: reusable_def)
  qed
  obtain r fs where tc:
    "try_convert E c (webp_file_of out png_file) WEBP_SETTINGS (ofs w) = (r, fs)"
    by (cases "try_convert E c (webp_file_of out png_file) WEBP_SETTINGS (ofs w)")
  have conv: "\<exists>nh' w'. process_file E png_file nd out cache base sem nh w = Inr (nh', w') \<and>
          encodes (trace w') = encodes (trace w) @ [(png_file, webp_file_of out png_file)]"
    unfolding process_file_miss [OF rel rd miss] using tc
    by (cases r) simp_all
  show ?thesis
    by (subst if_not_P [OF False]) (rule conv)
qed

theorem process_file_reuse_iff_witness:
  "relative_to [''in'', ''a.png''] [''in''] = Inr [''a.png''] \<and>
   read_node (File (Raw ''A'')) = Inr (Raw ''A'') \<and>
   (\<exists>e. map_of [(''a.png'', JObj [(''input_hash'', JStr ''#A'')])] (str_path [''a.png''])
           = Some (JObj e) \<and>
         map_of e ''input_hash'' = Some (JStr (sha256 toy_env (Raw ''A''))) \<and>
         exists_path (ofs converted_world) (webp_file_of [''out''] [''in'', ''a.png''])) \<and>
   process_file toy_env [''in'', ''a.png''] (File (Raw ''A'')) [''out'']
       [(''a.png'', JObj [(''input_hash'', JStr ''#A'')])] [''in''] 0 [] converted_world =
     Inr ([(''a.png'', JObj [(''input_hash'', JStr ''#A'')])],
          emit (Log INFO (''Skipping '' @ ''[root] a.png''
                          @ '' - already converted and unchanged'')) converted_world)"
proof -
  have h1: "relative_to [''in'', ''a.png''] [''in''] = Inr [''a.png'']"
    by (simp add: relative_to_def)
  have h2: "read_node (File (Raw ''A'')) = Inr (Raw ''A'')"
    by simp
  have h3: "\<forall>v. map_of [(''a.png'', JObj [(''input_hash'', JStr ''#A'')])] (str_path [''a.png''])
                  = Some v \<longrightarrow> (\<exists>e x. v = JObj e \<and> map_of e ''input_hash'' = Some x)"
    by (simp add: str_path_def)
  have c: "\<exists>e. map_of [(''a.png'', JObj [(''input_hash'', JStr ''#A'')])] (str_path [''a.png''])
           = Some (JObj e) \<and>
         map_of e ''input_hash'' = Some (JStr (sha256 toy_env (Raw ''A''))) \<and>
         exists_path (ofs converted_world) (webp_file_of [''out''] [''in'', ''a.png''])"
    by (simp add: str_path_def toy_env_def exists_path_def lookup_def converted_world_def
        fresh_world_def webp_file_of_def name_of_def stem_def)
  from process_file_reuse_iff [OF h1 h2 h3, of toy_env converted_world "[''out'']" 0 "[]"] c
  have "process_file toy_env [''in'', ''a.png''] (File (Raw ''A'')) [''out'']
       [(''a.png'', JObj [(''input_hash'', JStr ''#A'')])] [''in''] 0 [] converted_world =
     Inr ([(''a.png'', JObj [(''input_hash'', JStr ''#A'')])],
          emit (Log INFO (''Skipping '' @ ''[root] a.png''
                          @ '' - already converted and unchanged'')) converted_world)"
    by (auto simp: str_path_def label_root_example)
  with h1 h2 c show ?thesis by blast
qed

text \<open>
  C4, as the code has it. The entry that a conversion writes has as its \<open>folder\<close> the string
  of the parent directory of the file relative to the input root, which is \<open>.\<close> for a file
  directly in the input root; \<open>root\<close> appears in the log messages only.
\<close>

theorem new_entry_folder:
  assumes rel: "relative_to png_file base = Inr rel"
    and rd: "read_node nd = Inr c"
    and miss: "reusable cache (str_path rel) (sha256 E c) (webp_file_of out png_file) (ofs w)
                 = Inr None"
    and run: "process_file E png_file nd out cache base sem nh w = Inr (nh', w')"
    and ok: "error_logs (trace w') = error_logs (trace w)"
  shows "\<exists>e. map_of nh' (str_path rel) = Some (JObj e) \<and>
             map_of e ''folder'' =
               Some (JStr (if length rel \<le> 1 then ''.'' else join_path (butlast rel)))"
  using run ok unfolding process_file_miss [OF rel rd miss]
  by (auto simp: new_entry_def str_path_def parent_def butlast_Nil_iff
      split: prod.splits sum.splits if_splits)

theorem new_entry_folder_witness:
  "\<exists>nh' w'.
     relative_to [''in'', ''a.png''] [''in''] = Inr [''a.png''] \<and>
     read_node (File (Raw ''A'')) = Inr (Raw ''A'') \<and>
     reusable [] (str_path [''a.png'']) (sha256 toy_env (Raw ''A''))
       (webp_file_of [''out''] [''in'', ''a.png'']) (ofs out_world) = Inr None \<and>
     process_file toy_env [''in'', ''a.png''] (File (Raw ''A'')) [''out''] [] [''in''] 0 []
       out_world = Inr (nh', w') \<and>
     error_logs (trace w') = error_logs (trace out_world) \<and>
     (\<exists>e. map_of nh' (str_path [''a.png'']) = Some (JObj e) \<and>
          map_of e ''folder'' = Some (JStr ''.''))"
proof -
  have h1: "relative_to [''in'', ''a.png''] [''in''] = Inr [''a.png'']"
    by (simp add: relative_to_def)
  have h2: "read_node (File (Raw ''A'')) = Inr (Raw ''A'')"
    by simp
  have h3: "reusable [] (str_path [''a.png'']) (sha256 toy_env (Raw ''A''))
       (webp_file_of [''out''] [''in'', ''a.png'']) (ofs out_world) = Inr None"
    by (simp add: reusable_def)
  have "\<exists>nh' w'. process_file toy_env [''in'', ''a.png''] (File (Raw ''A'')) [''out''] [] [''in'']
          0 [] out_world = Inr (nh', w') \<and> error_logs (trace w') = error_logs (trace out_world)"
    unfolding process_file_miss [OF h1 h2 h3]
    by (simp add: try_convert_def toy_env_def out_world_def fresh_world_def webp_file_of_def
        name_of_def stem_def lookup_def open_w_def parent_def calculate_file_hash_def
        read_file_def)
  then obtain nh' w' where
    run: "process_file toy_env [''in'', ''a.png''] (File (Raw ''A'')) [''out''] [] [''in'']
          0 [] out_world = Inr (nh', w')"
    and ok: "error_logs (trace w') = error_logs (trace out_world)" by blast
  from new_entry_folder [OF h1 h2 h3 run ok] have
    "\<exists>e. map_of nh' (str_path [''a.png'']) = Some (JObj e) \<and>
          map_of e ''folder'' = Some (JStr ''.'')" by simp
  with h1 h2 h3 run ok show ?thesis by blast
qed

text \<open>
  C4 as stated fails: the file \<open>a.png\<close> directly in the input root gets an entry whose
  \<open>folder\<close> is \<open>.\<close>, not \<open>root\<close>.
\<close>

theorem top_level_folder_counterexample:
  "(case process_file toy_env [''in'', ''a.png''] (File (Raw ''A'')) [''out''] [] [''in''] 0 []
           out_world of
      Inl e \<Rightarrow> None
    | Inr (new_hashes, w) \<Rightarrow> map_option get_folder (map_of new_hashes ''a.png''))
   = Some (Inr (JStr ''.''))"
  by (simp add: process_file_def relative_to_def reusable_def Let_def convert_image_def
      try_convert_def toy_env_def out_world_def fresh_world_def webp_file_of_def
      str_path_def name_of_def stem_def lookup_def open_w_def parent_def
      calculate_file_hash_def read_file_def read_clock_def new_entry_def)

text \<open>
  C7. When the conversion of a file raises (in the encoder, or when the output is written
  or hashed), \<open>process_file\<close> returns normally: the error is logged with the message of the
  exception, the new cache is returned as it was, so it has no entry for the file, and the
  state that the tasks after it start from differs from the state before in its events only.
\<close>

theorem failed_conversion_isolated:
  assumes rel: "relative_to png_file base = Inr rel"
    and rd: "read_node nd = Inr c"
    and miss: "reusable cache (str_path rel) (sha256 E c) (webp_file_of out png_file) (ofs w)
                 = Inr None"
    and fail: "fst (try_convert E c (webp_file_of out png_file) WEBP_SETTINGS (ofs w)) = Inl msg"
  shows "process_file E png_file nd out cache base sem nh w =
           Inr (nh, w\<lparr>trace := trace w @
                  [Log INFO (''Converting '' @ label rel png_file),
                   Acquire sem,
                   Encode png_file (webp_file_of out png_file),
                   Log ERROR (''Error converting '' @ str_path png_file @ '': '' @ msg),
                   Release sem,
                   Log ERROR (''Failed to convert '' @ label rel png_file)]\<rparr>)"
proof -
  obtain r fs' where tc:
    "try_convert E c (webp_file_of out png_file) WEBP_SETTINGS (ofs w) = (r, fs')"
    by (cases "try_convert E c (webp_file_of out png_file) WEBP_SETTINGS (ofs w)")
  with fail have r: "r = Inl msg" by simp
  with tc have fs': "fs' = ofs w" by (auto simp: webp_file_of_def dest: try_convert_fail_fs)
  show ?thesis
    using tc r fs' by (simp add: process_file_miss [OF rel rd miss])
qed

theorem failed_conversion_isolated_witness:
  "relative_to [''in'', ''c.png''] [''in''] = Inr [''c.png''] \<and>
   read_node (File (Raw ''bad'')) = Inr (Raw ''bad'') \<and>
   reusable [] (str_path [''c.png'']) (sha256 toy_env (Raw ''bad''))
     (webp_file_of [''out''] [''in'', ''c.png'']) (ofs fresh_world) = Inr None \<and>
   fst (try_convert toy_env (Raw ''bad'') (webp_file_of [''out''] [''in'', ''c.png''])
          WEBP_SETTINGS (ofs fresh_world)) = Inl ''cannot identify image file'' \<and>
   process_file toy_env [''in'', ''c.png''] (File (Raw ''bad'')) [''out''] [] [''in''] 0 []
       fresh_world =
     Inr ([], fresh_world\<lparr>trace := trace fresh_world @
            [Log INFO (''Converting '' @ ''[root] '' @ ''c.png''),
             Acquire 0,
             Encode [''in'', ''c.png''] (webp_file_of [''out''] [''in'', ''c.png'']),
             Log ERROR (''Error converting '' @ str_path [''in'', ''c.png''] @ '': ''
                        @ ''cannot identify image file''),
             Release 0,
             Log ERROR (''Failed to convert '' @ ''[root] '' @ ''c.png'')]\<rparr>)"
proof -
  have h1: "relative_to [''in'', ''c.png''] [''in''] = Inr [''c.png'']"
    by (simp add: relative_to_def)
  have h2: "read_node (File (Raw ''bad'')) = Inr (Raw ''bad'')"
    by simp
  have h3: "reusable [] (str_path [''c.png'']) (sha256 toy_env (Raw ''bad''))
     (webp_file_of [''out''] [''in'', ''c.png'']) (ofs fresh_world) = Inr None"
    by (simp add: reusable_def)
  have h4: "fst (try_convert toy_env (Raw ''bad'') (webp_file_of [''out''] [''in'', ''c.png''])
          WEBP_SETTINGS (ofs fresh_world)) = Inl ''cannot identify image file''"
    by (simp add: try_convert_def toy_env_def)
  from failed_conversion_isolated [OF h1 h2 h3 h4, of 0 "[]"] h1 h2 h3 h4
  show ?thesis
    by (simp only: label_root_example)
qed

subsection \<open>Dictionaries and JSON\<close>

lemma dict_set_fresh: "k \<notin> fst ` set d \<Longrightarrow> dict_set k v d = d @ [(k, v)]"
  by (induction d) auto

lemma dict_update_fresh:
  "distinct (map fst other) \<Longrightarrow> fst ` set d \<inter> fst ` set other = {} \<Longrightarrow>
   dict_update d other = d @ other"
proof (induction other arbitrary: d)
  case Nil
  then show ?case by (simp add: dict_update_def)
next
  case (Cons kv other)
  have "dict_update d (kv # other) = dict_update (dict_set (fst kv) (snd kv) d) other"
    by (simp add: dict_update_def)
  also have "dict_set (fst kv) (snd kv) d = d @ [kv]"
    using Cons.prems by (simp add: dict_set_fresh)
  also have "dict_update (d @ [kv]) other = (d @ [kv]) @ other"
    using Cons.prems by (intro Cons.IH) auto
  finally show ?case by simp
qed

lemma dict_update_Nil: "distinct (map fst d) \<Longrightarrow> dict_update [] d = d"
  using dict_update_fresh [of d "[]"] by simp

lemma is_str_norm: "is_str v \<Longrightarrow> json_norm v = v"
  by (cases v) simp_all

lemma entry_ok_norm: "entry_ok v \<Longrightarrow> json_norm v = v"
proof (cases v)
  case (JObj e)
  assume "entry_ok v"
  with JObj have d: "distinct (map fst e)" and s: "list_all is_str (map snd e)" by simp_all
  have "map (\<lambda>kv. (fst kv, json_norm (snd kv))) e = e"
    using s by (intro map_idI) (auto simp: list_all_iff is_str_norm)
  with d JObj show ?thesis by (simp add: dict_update_Nil)
qed simp_all

lemma dict_set_split:
  "map_of fs f = Some g \<Longrightarrow>
   \<exists>pre post. fs = pre @ (f, g) # post \<and> f \<notin> fst ` set pre \<and>
              dict_set f g' fs = pre @ (f, g') # post"
proof (induction fs)
  case Nil
  then show ?case by simp
next
  case (Cons x fs)
  show ?case
  proof (cases "fst x = f")
    case True
    with Cons.prems have "x = (f, g)" by (cases x) auto
    then have "x # fs = [] @ (f, g) # fs \<and> f \<notin> fst ` set [] \<and>
               dict_set f g' (x # fs) = [] @ (f, g') # fs" by simp
    then show ?thesis by blast
  next
    case False
    with Cons.prems have "map_of fs f = Some g" by (cases x) auto
    from Cons.IH [OF this] obtain pre post where
      "fs = pre @ (f, g) # post" "f \<notin> fst ` set pre" "dict_set f g' fs = pre @ (f, g') # post"
      by blast
    with False have "x # fs = (x # pre) @ (f, g) # post \<and> f \<notin> fst ` set (x # pre) \<and>
               dict_set f g' (x # fs) = (x # pre) @ (f, g') # post"
      by (cases x) auto
    then show ?thesis by blast
  qed
qed

lemma get_folder_ok:
  "entry_ok e \<Longrightarrow> \<exists>s. get_folder e = Inr (JStr s)"
proof (cases e)
  case (JObj kvs)
  assume ok: "entry_ok e"
  show ?thesis
  proof (cases "map_of kvs ''folder''")
    case None
    with JObj show ?thesis by simp
  next
    case (Some v)
    then have "v \<in> snd ` set kvs" by (force dest: map_of_SomeD)
    with ok JObj have "is_str v" by (auto simp: list_all_iff)
    then obtain s where "v = JStr s" by (cases v) simp_all
    with Some JObj show ?thesis by simp
  qed
qed simp_all

lemma organize_step_grouped:
  assumes g: "grouped files seen" and ok: "entry_ok e" and fresh: "k \<notin> fst ` set seen"
  shows "\<exists>files'. organize_step files (k, e) = Inr files' \<and> grouped files' (seen @ [(k, e)])"
proof -
  from get_folder_ok [OF ok] obtain s where f: "get_folder e = Inr (JStr s)" by blast
  define files1 where
    "files1 = (if JStr s \<notin> fst ` set files then dict_set (JStr s) [] files else files)"
  have g1: "grouped files1 seen"
  proof (cases "JStr s \<in> fst ` set files")
    case True
    with g show ?thesis by (simp add: files1_def)
  next
    case False
    then have "files1 = files @ [(JStr s, [])]" by (simp add: files1_def dict_set_fresh)
    with g False show ?thesis by (auto simp: grouped_def)
  qed
  have "JStr s \<in> fst ` set files1"
    by (cases "JStr s \<in> fst ` set files") (simp_all add: files1_def dict_set_fresh)
  then obtain grp where m: "map_of files1 (JStr s) = Some grp"
    by (metis domD dom_map_of_conv_image_fst)
  from dict_set_split [OF m, of "dict_set k e grp"] obtain pre post where
    sp: "files1 = pre @ (JStr s, grp) # post" "JStr s \<notin> fst ` set pre"
      "dict_set (JStr s) (dict_set k e grp) files1 = pre @ (JStr s, dict_set k e grp) # post"
    by blast
  have kg: "k \<notin> fst ` set grp"
    using g1 fresh sp(1) by (auto simp: grouped_def image_iff) 
  then have ds: "dict_set k e grp = grp @ [(k, e)]" by (simp add: dict_set_fresh)
  have res: "organize_step files (k, e) = Inr (pre @ (JStr s, grp @ [(k, e)]) # post)"
    using f m sp(3) ds by (simp add: organize_step_def files1_def Let_def)
  have "grouped (pre @ (JStr s, grp @ [(k, e)]) # post) (seen @ [(k, e)])"
    using g1 fresh unfolding sp(1) grouped_def
    by (auto simp: image_iff)
  with res show ?thesis by blast
qed


lemma organize_grouped:
  assumes "grouped files seen" and "list_all entry_ok (map snd items)"
    and "distinct (map fst (seen @ items))"
  shows "\<exists>files'. organize files items = Inr files' \<and> grouped files' (seen @ items)"
  using assms
proof (induction items arbitrary: files seen)
  case Nil
  then show ?case by simp
next
  case (Cons item items)
  obtain k e where item: "item = (k, e)" by (cases item)
  from Cons.prems item have "entry_ok e" and "k \<notin> fst ` set seen" by auto
  from organize_step_grouped [OF Cons.prems(1) this] obtain files1 where
    st: "organize_step files (k, e) = Inr files1" and g1: "grouped files1 (seen @ [(k, e)])"
    by blast
  from Cons.prems item have "list_all entry_ok (map snd items)"
    and "distinct (map fst ((seen @ [(k, e)]) @ items))" by auto
  from Cons.IH [OF g1 this] obtain files' where
    "organize files1 items = Inr files'" "grouped files' ((seen @ [(k, e)]) @ items)"
    by blast
  with st item show ?case by simp
qed

lemma flatten_objects: "flatten acc (map JObj gs) = Inr (foldl dict_update acc gs)"
  by (induction gs arbitrary: acc) simp_all

lemma foldl_dict_update_fresh:
  "distinct (map fst (acc @ concat gs)) \<Longrightarrow> foldl dict_update acc gs = acc @ concat gs"
proof (induction gs arbitrary: acc)
  case Nil
  then show ?case by simp
next
  case (Cons g gs)
  from Cons.prems have "dict_update acc g = acc @ g"
    by (intro dict_update_fresh) auto
  moreover from Cons.prems have "foldl dict_update (acc @ g) gs = (acc @ g) @ concat gs"
    by (intro Cons.IH) simp
  ultimately show ?case by simp
qed

lemma is_str_json_key: "is_str v \<Longrightarrow> JStr (json_key v) = v"
  by (cases v) simp_all

lemma distinct_concat_member:
  assumes "g \<in> set gs" and "distinct (map fst (concat gs))"
  shows "distinct (map fst g)"
proof -
  from assms(1) obtain pre post where "gs = pre @ g # post" by (auto dest: split_list)
  with assms(2) show ?thesis by simp
qed

lemma distinct_json_key:
  "list_all is_str xs \<Longrightarrow> distinct xs \<Longrightarrow> distinct (map json_key xs)"
proof (induction xs)
  case Nil
  then show ?case by simp
next
  case (Cons x xs)
  have "json_key x \<notin> json_key ` set xs"
  proof
    assume "json_key x \<in> json_key ` set xs"
    then obtain y where y: "y \<in> set xs" "json_key x = json_key y" by blast
    with Cons.prems have "is_str x" "is_str y" by (auto simp: list_all_iff)
    then have "x = JStr (json_key x)" "y = JStr (json_key y)"
      by (simp_all add: is_str_json_key)
    with y have "x = y" by simp
    with y Cons.prems show False by simp
  qed
  with Cons show ?case by simp
qed

text \<open>What \<open>json.load\<close> reads from a lock file that \<open>save_lock_file\<close> wrote.\<close>

lemma json_load_lock_document:
  assumes g: "grouped files M" and ok: "list_all entry_ok (map snd M)"
  shows "json_load (Json (lock_document t hashes files)) = Inr (lock_document t hashes files)"
proof -
  let ?dumped = "map (\<lambda>g. (json_key (fst g), JObj (snd g))) files"
  have grp: "json_norm (JObj grp) = JObj grp" if "grp \<in> snd ` set files" for grp
  proof -
    from that g have "distinct (map fst (concat (map snd files)))"
      and sub: "set grp \<subseteq> set M"
      by (auto simp: grouped_def)
    with that have d: "distinct (map fst grp)"
      by (intro distinct_concat_member [of grp "map snd files"]) auto
    have "json_norm (snd kv) = snd kv" if "kv \<in> set grp" for kv
    proof -
      from that sub ok have "entry_ok (snd kv)" by (auto simp: list_all_iff)
      then show ?thesis by (rule entry_ok_norm)
    qed
    then have "map (\<lambda>kv. (fst kv, json_norm (snd kv))) grp = grp"
      by (intro map_idI) simp
    with d show ?thesis by (simp add: dict_update_Nil)
  qed
  have "(fst kv, json_norm (snd kv)) = kv" if "kv \<in> set ?dumped" for kv
  proof -
    from that obtain f g where "(f, g) \<in> set files" and kv: "kv = (json_key f, JObj g)"
      by auto
    then have "g \<in> snd ` set files" by force
    from grp [OF this] kv show ?thesis by simp
  qed
  then have m: "map (\<lambda>kv. (fst kv, json_norm (snd kv))) ?dumped = ?dumped"
    by (intro map_idI)
  have d: "distinct (map fst ?dumped)"
    using g distinct_json_key [of "map fst files"] by (simp add: grouped_def comp_def)
  have "json_norm (JObj ?dumped)
          = JObj (dict_update [] (map (\<lambda>kv. (fst kv, json_norm (snd kv))) ?dumped))"
    by (simp only: json_norm.simps)
  also have "\<dots> = JObj (dict_update [] ?dumped)"
    by (simp only: m)
  also have "\<dots> = JObj ?dumped"
    by (simp only: dict_update_Nil [OF d])
  finally have "json_norm (JObj ?dumped) = JObj ?dumped" .
  then show ?thesis
    by (simp add: json_load_def lock_document_def dict_update_def)
qed

lemma flatten_data_lock_document:
  assumes g: "grouped files M"
  shows "flatten_data (lock_document t hashes files) = Inr (concat (map snd files))"
proof -
  have "flatten [] (map snd (map (\<lambda>g. (json_key (fst g), JObj (snd g))) files))
        = flatten [] (map JObj (map snd files))"
    by (simp add: comp_def)
  also have "\<dots> = Inr (foldl dict_update [] (map snd files))"
    by (rule flatten_objects)
  also have "foldl dict_update [] (map snd files) = [] @ concat (map snd files)"
    using g by (intro foldl_dict_update_fresh) (simp add: grouped_def)
  finally show ?thesis
    by (simp add: flatten_data_def lock_document_def)
qed

lemma grouped_cache:
  assumes g: "grouped files M" and ok: "cache_ok M"
  shows "cache_ok (concat (map snd files)) \<and> map_of (concat (map snd files)) = map_of M \<and>
         length (concat (map snd files)) = length M"
proof -
  let ?c = "concat (map snd files)"
  from g have d: "distinct (map fst ?c)" and s: "set ?c = set M" by (simp_all add: grouped_def)
  from ok have dM: "distinct (map fst M)" by (simp add: cache_ok_def)
  from d have "distinct ?c" by (rule distinct_map [THEN iffD1, THEN conjunct1])
  moreover from dM have "distinct M" by (rule distinct_map [THEN iffD1, THEN conjunct1])
  ultimately have "length ?c = length M"
    using s by (metis distinct_card)
  moreover have "map_of ?c = map_of M"
    using d dM s by (simp add: map_of_inject_set)
  moreover have "cache_ok ?c"
    using d s ok by (auto simp: cache_ok_def list_all_iff)
  ultimately show ?thesis by simp
qed

lemma grouped_Nil: "grouped [] []"
  by (simp add: grouped_def)

text \<open>\<open>save_lock_file\<close> on a cache of well-formed entries, and \<open>load_lock_file\<close> after it.\<close>

lemma save_lock_file_ok:
  assumes ok: "cache_ok M" and wr: "open_w lock_file (ofs w) = Inr fs0"
  shows "\<exists>files w'. grouped files M \<and> save_lock_file E lock_file M w = Inr w' \<and>
           ofs w' = (ofs w)(lock_file \<mapsto> OFile (Json (lock_document (now E (ticks w)) M files)))
           \<and> lock_file \<noteq> []"
proof -
  from ok have "list_all entry_ok (map snd M)" "distinct (map fst ([] @ M))"
    by (simp_all add: cache_ok_def)
  from organize_grouped [OF grouped_Nil this] obtain files where
    o: "organize [] M = Inr files" and g: "grouped files M" by auto
  from open_w_Inr [OF wr] have fs0: "fs0 = (ofs w)(lock_file \<mapsto> OFile (Raw []))"
    and nd: "lookup (ofs w) lock_file \<noteq> Some ODir" by simp_all
  from nd have ne: "lock_file \<noteq> []" by (auto simp: lookup_def)
  have "\<exists>w'. save_lock_file E lock_file M w = Inr w' \<and>
           ofs w' = (ofs w)(lock_file \<mapsto> OFile (Json (lock_document (now E (ticks w)) M files)))"
    using o wr fs0
    by (simp add: save_lock_file_def read_clock_def new_object_def save_ops_def Let_def)
  with g ne show ?thesis by blast
qed

lemma load_lock_file_saved:
  assumes g: "grouped files M" and ok: "cache_ok M" and ne: "lock_file \<noteq> []"
    and f: "ofs w lock_file = Some (OFile (Json (lock_document t hashes files)))"
  shows "\<exists>w'. load_lock_file lock_file w = Inr (concat (map snd files), w') \<and> ofs w' = ofs w"
proof -
  from ok have "list_all entry_ok (map snd M)" by (simp add: cache_ok_def)
  from json_load_lock_document [OF g this]
  have "json_load (Json (lock_document t hashes files)) = Inr (lock_document t hashes files)" .
  with f ne flatten_data_lock_document [OF g] show ?thesis
    by (simp add: load_lock_file_def exists_path_def lookup_def read_file_def new_object_def
        Let_def)
qed

lemma fst_set_dict_set: "fst ` set (dict_set k v d) = insert k (fst ` set d)"
proof (induction d)
  case Nil
  then show ?case by simp
next
  case (Cons x d)
  obtain a b where x: "x = (a, b)" by (cases x)
  show ?case
  proof (cases "k = a")
    case True
    then show ?thesis by (simp add: x)
  next
    case False
    with Cons.IH show ?thesis by (simp add: x insert_commute)
  qed
qed

lemma distinct_dict_set: "distinct (map fst d) \<Longrightarrow> distinct (map fst (dict_set k v d))"
proof (induction d)
  case Nil
  then show ?case by simp
next
  case (Cons x d)
  obtain a b where x: "x = (a, b)" by (cases x)
  show ?case
  proof (cases "k = a")
    case True
    with Cons.prems show ?thesis by (simp add: x)
  next
    case False
    with Cons show ?thesis by (simp add: x fst_set_dict_set)
  qed
qed

lemma distinct_dict_update:
  "distinct (map fst d) \<Longrightarrow> distinct (map fst (dict_update d other))"
  unfolding dict_update_def
  by (induction other arbitrary: d) (simp_all add: distinct_dict_set)

lemma snd_set_dict_set: "snd ` set (dict_set k v d) \<subseteq> insert v (snd ` set d)"
proof (induction d)
  case Nil
  then show ?case by simp
next
  case (Cons x d)
  obtain a b where x: "x = (a, b)" by (cases x)
  show ?case
  proof (cases "k = a")
    case True
    then show ?thesis by (auto simp: x)
  next
    case False
    with Cons.IH show ?thesis by (auto simp: x)
  qed
qed

lemma snd_set_dict_update: "snd ` set (dict_update d other) \<subseteq> snd ` set d \<union> snd ` set other"
  unfolding dict_update_def
proof (induction other arbitrary: d)
  case Nil
  then show ?case by simp
next
  case (Cons x other)
  from Cons.IH [of "dict_set (fst x) (snd x) d"] snd_set_dict_set [of "fst x" "snd x" d]
  show ?case by auto
qed

lemma json_norm_distinct: "json_norm v = JObj g \<Longrightarrow> distinct (map fst g)"
proof (cases v)
  case (JObj kvs)
  assume "json_norm v = JObj g"
  with JObj have "g = dict_update [] (map (\<lambda>kv. (fst kv, json_norm (snd kv))) kvs)"
    by simp
  then show ?thesis by (simp add: distinct_dict_update)
qed simp_all

lemma snd_set_norm_items:
  assumes "x \<in> snd ` set (dict_update [] (map (\<lambda>kv. (fst kv, json_norm (snd kv))) kvs))"
  shows "\<exists>u. x = json_norm u"
proof -
  from snd_set_dict_update [of "[]" "map (\<lambda>kv. (fst kv, json_norm (snd kv))) kvs"] assms
  have "x \<in> snd ` set (map (\<lambda>kv. (fst kv, json_norm (snd kv))) kvs)"
    by (simp add: subset_iff)
  then obtain kv where "x = json_norm (snd kv)" by (auto simp: image_iff)
  then show ?thesis by blast
qed

lemma json_norm_members:
  assumes "json_norm v = JObj g" and "x \<in> snd ` set g"
  shows "\<exists>u. x = json_norm u"
proof (cases v)
  case (JObj kvs)
  with assms(1) have "g = dict_update [] (map (\<lambda>kv. (fst kv, json_norm (snd kv))) kvs)"
    by simp
  with assms(2) show ?thesis by (simp only: snd_set_norm_items)
next
  case (JStr s)
  with assms(1) show ?thesis by simp
next
  case (JInt n)
  with assms(1) show ?thesis by simp
qed

lemma json_load_members:
  assumes "json_load c = Inr data" and "map_of data k = Some x"
  shows "\<exists>u. x = json_norm u"
proof (cases c)
  case (Json d)
  from assms(2) have "(k, x) \<in> set data" by (rule map_of_SomeD)
  then have x: "x \<in> snd ` set data" by (simp add: image_iff) (metis snd_conv)
  from assms(1) Json
  have "data = dict_update [] (map (\<lambda>kv. (fst kv, json_norm (snd kv))) d)"
    by (simp add: json_load_def)
  with x show ?thesis by (simp only: snd_set_norm_items)
next
  case (Raw b)
  with assms(1) show ?thesis by (simp add: json_load_def)
qed

lemma map_of_dict_update:
  "distinct (map fst other) \<Longrightarrow> map_of (dict_update d other) = map_of d ++ map_of other"
proof (induction other arbitrary: d)
  case Nil
  then show ?case by (simp add: dict_update_def)
next
  case (Cons kv other)
  obtain k v where kv: "kv = (k, v)" by (cases kv)
  from Cons.prems kv have d: "distinct (map fst other)" and nk: "map_of other k = None"
    by (simp_all add: map_of_eq_None_iff)
  have 1: "dict_update d (kv # other) = dict_update (dict_set k v d) other"
    by (simp add: dict_update_def kv)
  have 2: "map_of (dict_update (dict_set k v d) other) = map_of (dict_set k v d) ++ map_of other"
    by (rule Cons.IH [OF d])
  have 3: "map_of (dict_set k v d) ++ map_of other = map_of d ++ map_of (kv # other)"
  proof (rule ext)
    fix x
    show "(map_of (dict_set k v d) ++ map_of other) x = (map_of d ++ map_of (kv # other)) x"
      using nk by (cases "map_of other x") (auto simp: map_add_def kv)
  qed
  show ?case by (simp only: 1 2 3)
qed

lemma flatten_flattened:
  assumes "list_all is_obj (map snd folders)"
    and "\<forall>v \<in> snd ` set folders. distinct (map fst (group_items v))"
  shows "\<exists>flat. flatten acc (map snd folders) = Inr flat \<and>
           map_of flat = foldl (\<lambda>m f. m ++ map_of (group_items (snd f))) (map_of acc) folders"
  using assms
proof (induction folders arbitrary: acc)
  case Nil
  then show ?case by simp
next
  case (Cons f folders)
  from Cons.prems obtain g where g: "snd f = JObj g" and d: "distinct (map fst g)"
    by (cases "snd f") auto
  from Cons.prems have "list_all is_obj (map snd folders)"
    and "\<forall>v \<in> snd ` set folders. distinct (map fst (group_items v))" by simp_all
  from Cons.IH [OF this, of "dict_update acc g"] g d show ?case
    by (simp add: map_of_dict_update)
qed

subsection \<open>Loading the lock file\<close>

text \<open>
  C6. \<open>load_lock_file\<close> returns the empty dict when the lock file does not exist. When the
  document that \<open>json.load\<close> reads has no key \<open>files\<close>, the document itself is returned.
  When it has, and the value is an object of objects, the result is the flat mapping of the
  nested structure.
\<close>

theorem load_lock_file_result:
  "(\<not> exists_path (ofs w) lock_file \<longrightarrow> load_lock_file lock_file w = Inr ([], w)) \<and>
   (read_file lock_file (ofs w) = Inr c \<and> json_load c = Inr data \<and>
    map_of data ''files'' = None \<longrightarrow>
      (\<exists>w'. load_lock_file lock_file w = Inr (data, w') \<and> ofs w' = ofs w)) \<and>
   (read_file lock_file (ofs w) = Inr c \<and> json_load c = Inr data \<and>
    map_of data ''files'' = Some (JObj folders) \<and> list_all is_obj (map snd folders) \<longrightarrow>
      (\<exists>flat w'. load_lock_file lock_file w = Inr (flat, w') \<and> ofs w' = ofs w \<and>
                 map_of flat = flattened folders))"
proof (intro conjI impI)
  assume "\<not> exists_path (ofs w) lock_file"
  then show "load_lock_file lock_file w = Inr ([], w)"
    by (simp add: load_lock_file_def)
next
  assume a: "read_file lock_file (ofs w) = Inr c \<and> json_load c = Inr data \<and>
             map_of data ''files'' = None"
  then have "exists_path (ofs w) lock_file"
    by (auto simp: read_file_def exists_path_def split: option.splits)
  with a show "\<exists>w'. load_lock_file lock_file w = Inr (data, w') \<and> ofs w' = ofs w"
    by (simp add: load_lock_file_def new_object_def flatten_data_def Let_def)
next
  assume a: "read_file lock_file (ofs w) = Inr c \<and> json_load c = Inr data \<and>
             map_of data ''files'' = Some (JObj folders) \<and> list_all is_obj (map snd folders)"
  then have ex: "exists_path (ofs w) lock_file"
    by (auto simp: read_file_def exists_path_def split: option.splits)
  from a json_load_members [of c data "''files''" "JObj folders"]
  obtain u where u: "json_norm u = JObj folders" by auto
  have "distinct (map fst (group_items v))" if "v \<in> snd ` set folders" for v
  proof (cases v)
    case (JObj g)
    from json_norm_members [OF u that] obtain u' where "json_norm u' = JObj g"
      using JObj by auto
    with JObj show ?thesis by (simp add: json_norm_distinct)
  qed simp_all
  then have "\<forall>v \<in> snd ` set folders. distinct (map fst (group_items v))" by blast
  with a flatten_flattened [of folders "[]"] obtain flat where
    "flatten [] (map snd folders) = Inr flat" "map_of flat = flattened folders"
    by (auto simp: flattened_def)
  with a ex show "\<exists>flat w'. load_lock_file lock_file w = Inr (flat, w') \<and> ofs w' = ofs w \<and>
                 map_of flat = flattened folders"
    by (simp add: load_lock_file_def new_object_def flatten_data_def Let_def)
qed

theorem load_lock_file_result_witness:
  "\<not> exists_path (ofs out_world) [''out'', ''conversion.lock''] \<and>
   load_lock_file [''out'', ''conversion.lock''] out_world = Inr ([], out_world) \<and>
   read_file [''out'', ''conversion.lock''] (ofs locked_world) = Inr (Json sample_document) \<and>
   json_load (Json sample_document) = Inr sample_document \<and>
   list_all is_obj (map snd (group_items (the (map_of sample_document ''files'')))) \<and>
   (\<exists>flat w'. load_lock_file [''out'', ''conversion.lock''] locked_world = Inr (flat, w') \<and>
      ofs w' = ofs locked_world \<and>
      map_of flat = flattened (group_items (the (map_of sample_document ''files''))) \<and>
      map_of flat ''d/b.png'' = Some (JObj [(''input_hash'', JStr ''#B''), (''folder'', JStr ''d'')]) \<and>
      map_of flat ''d'' = None)"
proof -
  let ?lock = "[''out'', ''conversion.lock'']"
  let ?folders = "group_items (the (map_of sample_document ''files''))"
  have h0: "\<not> exists_path (ofs out_world) ?lock"
    by (simp add: exists_path_def lookup_def out_world_def fresh_world_def)
  have h1: "read_file ?lock (ofs locked_world) = Inr (Json sample_document)"
    by (simp add: read_file_def lookup_def locked_world_def fresh_world_def)
  have h2: "json_load (Json sample_document) = Inr sample_document"
    by (simp add: json_load_def sample_document_def dict_update_def)
  have h3: "map_of sample_document ''files'' = Some (JObj ?folders)"
    by (simp add: sample_document_def)
  have h4: "list_all is_obj (map snd ?folders)"
    by (simp add: sample_document_def)
  note r = load_lock_file_result [of out_world ?lock "Json sample_document" sample_document ?folders]
  note r' = load_lock_file_result [of locked_world ?lock "Json sample_document" sample_document ?folders]
  from r h0 have a: "load_lock_file ?lock out_world = Inr ([], out_world)" by blast
  from r' h1 h2 h3 h4 obtain flat w' where
    l: "load_lock_file ?lock locked_world = Inr (flat, w')" "ofs w' = ofs locked_world"
       "map_of flat = flattened ?folders"
    by blast
  have "flattened ?folders ''d/b.png'' = Some (JObj [(''input_hash'', JStr ''#B''), (''folder'', JStr ''d'')])"
    and "flattened ?folders ''d'' = None"
    by (simp_all add: flattened_def sample_document_def map_add_def)
  with l have "map_of flat ''d/b.png'' = Some (JObj [(''input_hash'', JStr ''#B''), (''folder'', JStr ''d'')])"
    and "map_of flat ''d'' = None" by simp_all
  with a h0 h1 h2 h4 l show ?thesis by blast
qed

subsection \<open>Saving the lock file\<close>

text \<open>
  C8. For a cache \<open>M\<close> of well-formed entries and a lock path that can be written,
  \<open>save\<close>, \<open>load\<close>, \<open>save\<close> succeed one after another; the document then at the lock path
  loads as a mapping equal to \<open>M\<close> (as the mapping between the two saves does), and its
  \<open>total_files\<close> is the size of \<open>M\<close>.
\<close>

theorem save_load_round_trip:
  assumes ok: "cache_ok M" and wr: "open_w lock_file (ofs w) = Inr fs0"
  shows "\<exists>w1 M1 w2 w3 M3 w4 doc.
           save_lock_file E lock_file M w = Inr w1 \<and>
           load_lock_file lock_file w1 = Inr (M1, w2) \<and>
           save_lock_file E lock_file M1 w2 = Inr w3 \<and>
           read_file lock_file (ofs w3) = Inr doc \<and>
           total_files doc = Some (JInt (int (length M))) \<and>
           load_lock_file lock_file w3 = Inr (M3, w4) \<and>
           map_of M1 = map_of M \<and> map_of M3 = map_of M"
proof -
  from save_lock_file_ok [OF ok wr, of E] obtain files w1 where
    g: "grouped files M" and s1: "save_lock_file E lock_file M w = Inr w1"
    and f1: "ofs w1 lock_file = Some (OFile (Json (lock_document (now E (ticks w)) M files)))"
    and ne: "lock_file \<noteq> []"
    by auto
  let ?M1 = "concat (map snd files)"
  from load_lock_file_saved [OF g ok ne f1] obtain w2 where
    l1: "load_lock_file lock_file w1 = Inr (?M1, w2)" and fs2: "ofs w2 = ofs w1" by blast
  from grouped_cache [OF g ok] have ok1: "cache_ok ?M1" and m1: "map_of ?M1 = map_of M"
    and len1: "length ?M1 = length M" by simp_all
  have "\<exists>fs. open_w lock_file (ofs w2) = Inr fs"
    using fs2 f1 ne by (simp add: open_w_def lookup_def)
  then obtain fs1 where wr2: "open_w lock_file (ofs w2) = Inr fs1" ..
  from save_lock_file_ok [OF ok1 wr2, of E] obtain files3 w3 where
    g3: "grouped files3 ?M1" and s3: "save_lock_file E lock_file ?M1 w2 = Inr w3"
    and f3: "ofs w3 lock_file
               = Some (OFile (Json (lock_document (now E (ticks w2)) ?M1 files3)))"
    by auto
  let ?M3 = "concat (map snd files3)"
  from load_lock_file_saved [OF g3 ok1 ne f3] obtain w4 where
    l3: "load_lock_file lock_file w3 = Inr (?M3, w4)" by blast
  from grouped_cache [OF g3 ok1] m1 have m3: "map_of ?M3 = map_of M" by simp
  have rd: "read_file lock_file (ofs w3)
              = Inr (Json (lock_document (now E (ticks w2)) ?M1 files3))"
    using f3 ne by (simp add: read_file_def lookup_def)
  have tf: "total_files (Json (lock_document (now E (ticks w2)) ?M1 files3))
              = Some (JInt (int (length M)))"
    using len1 by (simp add: total_files_def lock_document_def)
  from s1 l1 s3 rd tf l3 m1 m3 show ?thesis by blast
qed

theorem save_load_round_trip_witness:
  "cache_ok sample_cache \<and>
   open_w [''out'', ''conversion.lock''] (ofs out_world)
     = Inr ((ofs out_world)([''out'', ''conversion.lock''] \<mapsto> OFile (Raw []))) \<and>
   (\<exists>w1 M1 w2 w3 M3 w4 doc.
           save_lock_file toy_env [''out'', ''conversion.lock''] sample_cache out_world = Inr w1 \<and>
           load_lock_file [''out'', ''conversion.lock''] w1 = Inr (M1, w2) \<and>
           save_lock_file toy_env [''out'', ''conversion.lock''] M1 w2 = Inr w3 \<and>
           read_file [''out'', ''conversion.lock''] (ofs w3) = Inr doc \<and>
           total_files doc = Some (JInt (int (length sample_cache))) \<and>
           load_lock_file [''out'', ''conversion.lock''] w3 = Inr (M3, w4) \<and>
           map_of M1 = map_of sample_cache \<and> map_of M3 = map_of sample_cache)"
proof -
  have h1: "cache_ok sample_cache"
    by (simp add: cache_ok_def sample_cache_def)
  have h2: "open_w [''out'', ''conversion.lock''] (ofs out_world)
     = Inr ((ofs out_world)([''out'', ''conversion.lock''] \<mapsto> OFile (Raw [])))"
    by (simp add: open_w_def out_world_def fresh_world_def lookup_def parent_def)
  from save_load_round_trip [OF h1 h2, of toy_env] h1 h2 show ?thesis by blast
qed

lemma exec_ops_save_ops:
  "exec_ops (save_ops p doc) fs = Inr fs' \<Longrightarrow>
     open_w p fs = Inr (fs(p \<mapsto> OFile (Raw []))) \<and> fs' = fs(p \<mapsto> OFile (Json doc))"
proof -
  assume a: "exec_ops (save_ops p doc) fs = Inr fs'"
  then obtain fs1 where o: "open_w p fs = Inr fs1" and f: "fs' = fs1(p \<mapsto> OFile (Json doc))"
    by (cases "open_w p fs") (auto simp: save_ops_def)
  from open_w_Inr [OF o] f o show ?thesis by simp
qed

text \<open>
  C3, as the code has it. \<open>save_lock_file\<close> writes in place: it opens the lock path itself
  for writing, which truncates the file, and then writes the document there. No other path
  is touched, so there is no temporary file and no rename. The states that a crash can leave
  are the state before, the state with the lock file truncated to the empty file, and the
  state with the new document.
\<close>

theorem save_lock_file_in_place:
  assumes "save_lock_file E lock_file hashes w = Inr w'"
  shows "\<exists>doc. read_file lock_file (ofs w') = Inr (Json doc) \<and>
           (\<forall>p. p \<noteq> lock_file \<longrightarrow> ofs w' p = ofs w p) \<and>
           crash_states (save_ops lock_file doc) (ofs w) =
             [Inr (ofs w),
              Inr ((ofs w)(lock_file \<mapsto> OFile (Raw []))),
              Inr ((ofs w)(lock_file \<mapsto> OFile (Json doc)))]"
proof -
  from assms obtain files fs where
    ex: "exec_ops (save_ops lock_file (lock_document (now E (ticks w)) hashes files)) (ofs w)
           = Inr fs"
    and w': "ofs w' = fs"
    by (cases "organize [] hashes")
      (auto simp: save_lock_file_def read_clock_def new_object_def Let_def bind_err_def
        split: sum.splits)
  let ?doc = "lock_document (now E (ticks w)) hashes files"
  from exec_ops_save_ops [OF ex]
  have o: "open_w lock_file (ofs w) = Inr ((ofs w)(lock_file \<mapsto> OFile (Raw [])))"
    and fs: "fs = (ofs w)(lock_file \<mapsto> OFile (Json ?doc))" by simp_all
  from open_w_Inr [OF o] have ne: "lock_file \<noteq> []" by (auto simp: lookup_def)
  have "read_file lock_file (ofs w') = Inr (Json ?doc)"
    using w' fs ne by (simp add: read_file_def lookup_def)
  moreover have "\<forall>p. p \<noteq> lock_file \<longrightarrow> ofs w' p = ofs w p"
    using w' fs by simp
  moreover have "crash_states (save_ops lock_file ?doc) (ofs w) =
             [Inr (ofs w),
              Inr ((ofs w)(lock_file \<mapsto> OFile (Raw []))),
              Inr ((ofs w)(lock_file \<mapsto> OFile (Json ?doc)))]"
    using o by (simp add: crash_states_def save_ops_def upt_rec [of 0] upt_rec [of 1]
        upt_rec [of 2] numeral_2_eq_2)
  ultimately show ?thesis by blast
qed

theorem save_lock_file_in_place_witness:
  "\<exists>w' doc. save_lock_file toy_env [''out'', ''conversion.lock''] sample_cache locked_world = Inr w' \<and>
      read_file [''out'', ''conversion.lock''] (ofs w') = Inr (Json doc) \<and>
      crash_states (save_ops [''out'', ''conversion.lock''] doc) (ofs locked_world) =
             [Inr (ofs locked_world),
              Inr ((ofs locked_world)([''out'', ''conversion.lock''] \<mapsto> OFile (Raw []))),
              Inr ((ofs locked_world)([''out'', ''conversion.lock''] \<mapsto> OFile (Json doc)))]"
proof -
  have "cache_ok sample_cache" by (simp add: cache_ok_def sample_cache_def)
  moreover have "open_w [''out'', ''conversion.lock''] (ofs locked_world)
     = Inr ((ofs locked_world)([''out'', ''conversion.lock''] \<mapsto> OFile (Raw [])))"
    by (simp add: open_w_def locked_world_def fresh_world_def lookup_def)
  ultimately obtain w' where
    s: "save_lock_file toy_env [''out'', ''conversion.lock''] sample_cache locked_world = Inr w'"
    using save_lock_file_ok [of sample_cache "[''out'', ''conversion.lock'']" locked_world _ toy_env]
    by blast
  from save_lock_file_in_place [OF s] s show ?thesis by blast
qed

text \<open>
  C3 as stated fails: while the lock file with the sample document is saved over, the state
  after the first operation has the empty file at the lock path.
\<close>

theorem save_truncates_counterexample:
  "map (map_sum id (\<lambda>fs. fs [''out'', ''conversion.lock'']))
     (crash_states (save_ops [''out'', ''conversion.lock''] [(''files'', JObj [])])
        (ofs locked_world))
   = [Inr (Some (OFile (Json sample_document))),
      Inr (Some (OFile (Raw []))),
      Inr (Some (OFile (Json [(''files'', JObj [])])))]"
  by (simp add: crash_states_def save_ops_def upt_rec [of 0] upt_rec [of 1]
        upt_rec [of 2] numeral_2_eq_2 open_w_def lookup_def locked_world_def fresh_world_def)

text \<open>
  C5 fails on the code: \<open>load_lock_file\<close> and \<open>save_lock_file\<close> each create a lock of their
  own, acquire it and release it. Loading the sample lock file and saving what was loaded
  creates the locks 0 and 1; no lock is shared between the calls.
\<close>

theorem fresh_lock_per_call:
  "run_trace
     (bind_err (load_lock_file [''out'', ''conversion.lock''] locked_world) (\<lambda>(hashes, w).
      bind_err (save_lock_file toy_env [''out'', ''conversion.lock''] hashes w) (\<lambda>w'.
        Inr ((), w'))))
   = [NewLock 0, Acquire 0, Release 0, NewLock 1, Acquire 1, Release 1]"
  by code_simp

subsection \<open>The semaphore\<close>

lemma six_conversions:
  "conversions (run_trace (process_directory toy_env [''in''] six_tree [''out''] [] [''in'']
      fresh_world)) =
   [(0, [''in'', ''a.png'']), (0, [''in'', ''b.png'']), (0, [''in'', ''c.png'']),
    (0, [''in'', ''d.png'']), (0, [''in'', ''e.png'']), (1, [''in'', ''sub'', ''f.png''])]"
  by code_simp

lemma six_semaphores:
  "filter (\<lambda>ev. case ev of NewSemaphore s n \<Rightarrow> True | _ \<Rightarrow> False)
     (run_trace (process_directory toy_env [''in''] six_tree [''out''] [] [''in''] fresh_world))
   = [NewSemaphore 0 5, NewSemaphore 1 5]"
  by code_simp

text \<open>
  C1 fails on the code: every call of \<open>process_directory\<close> creates a semaphore of its own
  with five permits. With five PNG files in the input root and one in a subdirectory, six
  conversions can be inside \<open>async with semaphore\<close> at the same instant: five hold the
  permits of semaphore 0, the sixth holds a permit of semaphore 1.
\<close>

theorem six_conversions_in_flight:
  "in_flight
     (run_trace (process_directory toy_env [''in''] six_tree [''out''] [] [''in''] fresh_world))
     [(1, [''in'', ''sub'', ''f.png'']), (0, [''in'', ''e.png'']), (0, [''in'', ''d.png'']),
      (0, [''in'', ''c.png'']), (0, [''in'', ''b.png'']), (0, [''in'', ''a.png''])]"
proof -
  define tr where
    "tr = run_trace (process_directory toy_env [''in''] six_tree [''out''] [] [''in'']
            fresh_world)"
  have c: "conversions tr =
     [(0, [''in'', ''a.png'']), (0, [''in'', ''b.png'']), (0, [''in'', ''c.png'']),
      (0, [''in'', ''d.png'']), (0, [''in'', ''e.png'']), (1, [''in'', ''sub'', ''f.png''])]"
    unfolding tr_def by (rule six_conversions)
  have f: "filter (\<lambda>ev. case ev of NewSemaphore s n \<Rightarrow> True | _ \<Rightarrow> False) tr
             = [NewSemaphore 0 5, NewSemaphore 1 5]"
    unfolding tr_def by (rule six_semaphores)
  have "NewSemaphore 0 5 \<in> set (filter (\<lambda>ev. case ev of NewSemaphore s n \<Rightarrow> True | _ \<Rightarrow> False) tr)"
    and "NewSemaphore 1 5 \<in> set (filter (\<lambda>ev. case ev of NewSemaphore s n \<Rightarrow> True | _ \<Rightarrow> False) tr)"
    unfolding f by simp_all
  then have s0: "NewSemaphore 0 5 \<in> set tr" and s1: "NewSemaphore 1 5 \<in> set tr"
    by simp_all
  have 0: "in_flight tr []" by (rule idle)
  have 1: "in_flight tr [(0, [''in'', ''a.png''])]"
    by (rule enter [OF 0, where n = 5]) (simp_all add: c s0)
  have 2: "in_flight tr [(0, [''in'', ''b.png'']), (0, [''in'', ''a.png''])]"
    by (rule enter [OF 1, where n = 5]) (simp_all add: c s0)
  have 3: "in_flight tr [(0, [''in'', ''c.png'']), (0, [''in'', ''b.png'']),
             (0, [''in'', ''a.png''])]"
    by (rule enter [OF 2, where n = 5]) (simp_all add: c s0)
  have 4: "in_flight tr [(0, [''in'', ''d.png'']), (0, [''in'', ''c.png'']),
             (0, [''in'', ''b.png'']), (0, [''in'', ''a.png''])]"
    by (rule enter [OF 3, where n = 5]) (simp_all add: c s0)
  have 5: "in_flight tr [(0, [''in'', ''e.png'']), (0, [''in'', ''d.png'']),
             (0, [''in'', ''c.png'']), (0, [''in'', ''b.png'']), (0, [''in'', ''a.png''])]"
    by (rule enter [OF 4, where n = 5]) (simp_all add: c s0)
  have 6: "in_flight tr [(1, [''in'', ''sub'', ''f.png'']), (0, [''in'', ''e.png'']),
             (0, [''in'', ''d.png'']), (0, [''in'', ''c.png'']), (0, [''in'', ''b.png'']),
             (0, [''in'', ''a.png''])]"
    by (rule enter [OF 5, where n = 5]) (use s1 in \<open>simp_all add: c\<close>)
  then show ?thesis unfolding tr_def .
qed

text \<open>Each semaphore by itself does bound its holders.\<close>

lemma in_flight_bound:
  assumes "in_flight tr R"
    and "\<And>n m. NewSemaphore s n \<in> set tr \<Longrightarrow> NewSemaphore s m \<in> set tr \<Longrightarrow> n = m"
    and "NewSemaphore s c \<in> set tr"
  shows "length (filter (\<lambda>k. fst k = s) R) \<le> c"
  using assms
proof (induction R rule: in_flight.induct)
  case idle
  then show ?case by simp
next
  case (enter R j n)
  show ?case
  proof (cases "fst j = s")
    case True
    with enter have "n = c" by blast
    with enter.hyps True show ?thesis by simp
  next
    case False
    with enter show ?thesis by simp
  qed
next
  case (leave R j)
  have "length (filter (\<lambda>k. fst k = s) (remove1 j R)) \<le> length (filter (\<lambda>k. fst k = s) R)"
    by (induction R) auto
  with leave show ?case by fastforce
qed

subsection \<open>Walking the tree\<close>

lemma grows_refl [simp]: "grows fs fs"
  by (simp add: grows_def)

lemma grows_trans: "grows a b \<Longrightarrow> grows b c \<Longrightarrow> grows a c"
  by (simp add: grows_def)

lemma later_refl [simp]: "later w w"
  by (simp add: later_def)

lemma later_trans: "later a b \<Longrightarrow> later b c \<Longrightarrow> later a c"
  by (auto simp: later_def intro: grows_trans)

lemma os_mkdir_Inr:
  "os_mkdir p fs = Inr fs' \<Longrightarrow> fs' = fs(p \<mapsto> ODir) \<and> \<not> exists_path fs p"
  by (auto simp: os_mkdir_def split: if_splits option.splits fnode.splits)

lemma grows_new_dir: "\<not> exists_path fs p \<Longrightarrow> grows fs (fs(p \<mapsto> ODir))"
  by (auto simp: grows_def is_dir_def exists_path_def lookup_def)

lemma is_dir_new_dir: "is_dir (fs(p \<mapsto> ODir)) p"
  by (simp add: is_dir_def lookup_def)

lemma mkdir_exist_ok_Inr:
  assumes "mkdir_exist_ok p fs = Inr fs'"
  shows "is_dir fs' p \<and> grows fs fs'"
proof (cases "os_mkdir p fs")
  case (Inr fs1)
  with assms have "fs' = fs1" by (simp add: mkdir_exist_ok_def)
  moreover from os_mkdir_Inr [OF Inr] have "fs1 = fs(p \<mapsto> ODir)" and "\<not> exists_path fs p"
    by simp_all
  ultimately show ?thesis using grows_new_dir [of fs p] is_dir_new_dir [of fs p] by blast
next
  case (Inl e)
  with assms show ?thesis
    by (cases e) (auto simp: mkdir_exist_ok_def split: if_splits)
qed

lemma mkdir_parents_Inr:
  "mkdir_parents p fs = Inr fs' \<Longrightarrow> is_dir fs' p \<and> grows fs fs'"
proof (induction p fs arbitrary: fs' rule: mkdir_parents.induct)
  case (1 p fs)
  show ?case
  proof (cases "os_mkdir p fs")
    case (Inr fs1)
    with "1.prems" have "fs' = fs1" by (simp add: mkdir_parents.simps [of p fs])
    moreover from os_mkdir_Inr [OF Inr] have "fs1 = fs(p \<mapsto> ODir)" and "\<not> exists_path fs p"
      by simp_all
    ultimately show ?thesis using grows_new_dir [of fs p] is_dir_new_dir [of fs p] by blast
  next
    case (Inl e)
    show ?thesis
    proof (cases "e = FileNotFoundError")
      case False
      with Inl "1.prems" show ?thesis
        by (cases e) (auto simp: mkdir_parents.simps [of p fs] split: if_splits)
    next
      case True
      with Inl "1.prems" have ne: "p \<noteq> []"
        and b: "bind_err (mkdir_parents (butlast p) fs) (mkdir_exist_ok p) = Inr fs'"
        by (auto simp: mkdir_parents.simps [of p fs] split: if_splits)
      then obtain fs1 where m: "mkdir_parents (butlast p) fs = Inr fs1"
        and x: "mkdir_exist_ok p fs1 = Inr fs'"
        by (cases "mkdir_parents (butlast p) fs") auto
      from "1.IH" [OF Inl True ne m] have "grows fs fs1" by simp
      with mkdir_exist_ok_Inr [OF x] show ?thesis by (auto intro: grows_trans)
    qed
  qed
qed

lemma mkdir_parents_existing: "is_dir fs p \<Longrightarrow> mkdir_parents p fs = Inr fs"
  by (simp add: mkdir_parents.simps [of p fs] os_mkdir_def is_dir_def exists_path_def)

lemma grows_write:
  "lookup fs p \<noteq> Some ODir \<Longrightarrow> grows fs (fs(p \<mapsto> OFile c))"
  by (auto simp: grows_def is_dir_def exists_path_def lookup_def)

lemma try_convert_grows:
  assumes "try_convert E c p st fs = (r, fs')"
  shows "grows fs fs'"
proof (cases "encoder E st c")
  case (Inl m)
  with assms show ?thesis by (simp add: try_convert_def)
next
  case (Inr webp)
  show ?thesis
  proof (cases "exec_ops [OpenTruncate p, WriteAll p (Raw webp)] fs")
    case (Inl e)
    with assms Inr show ?thesis by (simp add: try_convert_def del: exec_ops.simps)
  next
    case (Inr fs1)
    from write_ops_Inr [OF Inr] have "grows fs fs1" by (simp add: grows_write)
    moreover from assms \<open>encoder E st c = Inr webp\<close> Inr have "fs' = fs1"
      by (auto simp: try_convert_def simp del: exec_ops.simps split: sum.splits)
    ultimately show ?thesis by simp
  qed
qed

lemma process_file_later:
  assumes "process_file E png nd out cache base sem nh w = Inr (nh', w')"
  shows "later w w'"
proof -
  from assms obtain rel c where rel: "relative_to png base = Inr rel"
    and rd: "read_node nd = Inr c"
    by (cases "relative_to png base"; cases "read_node nd") (auto simp: process_file_def)
  from assms rel rd obtain r where
    r: "reusable cache (str_path rel) (sha256 E c) (webp_file_of out png) (ofs w) = Inr r"
    by (cases "reusable cache (str_path rel) (sha256 E c) (webp_file_of out png) (ofs w)")
       (auto simp: process_file_def Let_def)
  show ?thesis
  proof (cases r)
    case (Some entry)
    with assms process_file_hit [OF rel rd] r show ?thesis by (auto simp: later_def)
  next
    case None
    obtain x fs where tc: "try_convert E c (webp_file_of out png) WEBP_SETTINGS (ofs w) = (x, fs)"
      by (cases "try_convert E c (webp_file_of out png) WEBP_SETTINGS (ofs w)")
    from None r have miss: "reusable cache (str_path rel) (sha256 E c) (webp_file_of out png) (ofs w) = Inr None"
      by simp
    from assms tc have "ofs w' = fs \<and> (\<exists>evs. trace w' = trace w @ evs)"
      unfolding process_file_miss [OF rel rd miss]
      by (cases x) (auto split: if_splits)
    with try_convert_grows [OF tc] show ?thesis by (simp add: later_def)
  qed
qed

lemma run_files_later:
  "run_files E inp out cache base sem es nh w = Inr (nh', w') \<Longrightarrow> later w w'"
proof (induction es arbitrary: nh w)
  case Nil
  then show ?case by simp
next
  case (Cons e es)
  show ?case
  proof (cases "is_png (fst e)")
    case False
    with Cons show ?thesis by simp
  next
    case True
    with Cons.prems obtain nh1 w1 where
      p: "process_file E (inp @ [fst e]) (snd e) out cache base sem nh w = Inr (nh1, w1)"
      and r: "run_files E inp out cache base sem es nh1 w1 = Inr (nh', w')"
      by (cases "process_file E (inp @ [fst e]) (snd e) out cache base sem nh w") auto
    from process_file_later [OF p] Cons.IH [OF r] show ?thesis by (rule later_trans)
  qed
qed

lemma process_directory_Inr:
  assumes "process_directory E inp entries out cache base w = Inr (h, w')"
  obtains fs nh w4 rs where
    "mkdir_parents out (ofs w) = Inr fs"
    "run_files E inp out cache base (next_obj w) entries []
       (w\<lparr>ofs := fs, next_obj := Suc (next_obj w),
          trace := trace w @ [Mkdir out, NewSemaphore (next_obj w) MAX_CONCURRENT_OPERATIONS]\<rparr>)
     = Inr (nh, w4)"
    "run_subdirs E inp entries out cache base w4 = Inr (rs, w')"
    "h = foldl dict_update nh rs"
proof -
  from assms obtain fs where m: "mkdir_parents out (ofs w) = Inr fs"
    by (cases "mkdir_parents out (ofs w)") (auto simp: Let_def process_directory.simps)
  let ?w3 = "w\<lparr>ofs := fs, next_obj := Suc (next_obj w),
          trace := trace w @ [Mkdir out, NewSemaphore (next_obj w) MAX_CONCURRENT_OPERATIONS]\<rparr>"
  from assms m have b: "bind_err (run_files E inp out cache base (next_obj w) entries [] ?w3)
      (\<lambda>(new_hashes, w4). bind_err (run_subdirs E inp entries out cache base w4)
         (\<lambda>(results, w5). Inr (foldl dict_update new_hashes results, w5))) = Inr (h, w')"
    by (simp add: Let_def new_object_def emit_def process_directory.simps)
  then obtain nh w4 where rf: "run_files E inp out cache base (next_obj w) entries [] ?w3 = Inr (nh, w4)"
    by (cases "run_files E inp out cache base (next_obj w) entries [] ?w3") auto
  with b obtain rs where rs: "run_subdirs E inp entries out cache base w4 = Inr (rs, w')"
    and h: "h = foldl dict_update nh rs"
    by (cases "run_subdirs E inp entries out cache base w4") auto
  from m rf rs h show ?thesis by (rule that)
qed

lemma run_subdirs_Dir_Inr:
  assumes "run_subdirs E inp ((name, Dir sub) # es) out cache base w = Inr (rs, w')"
  obtains r w1 rs' where
    "process_directory E (inp @ [name]) sub (out @ [name]) cache base w = Inr (r, w1)"
    "run_subdirs E inp es out cache base w1 = Inr (rs', w')"
    "rs = r # rs'"
proof -
  from assms have b: "bind_err (process_directory E (inp @ [name]) sub (out @ [name]) cache base w)
      (\<lambda>(result, w1). bind_err (run_subdirs E inp es out cache base w1)
         (\<lambda>(results, w2). Inr (result # results, w2))) = Inr (rs, w')"
    by (simp only: run_subdirs.simps)
  then obtain r w1 where
    pd: "process_directory E (inp @ [name]) sub (out @ [name]) cache base w = Inr (r, w1)"
    by (cases "process_directory E (inp @ [name]) sub (out @ [name]) cache base w")
       (auto simp: bind_err_def)
  with b have b2: "bind_err (run_subdirs E inp es out cache base w1)
         (\<lambda>(results, w2). Inr (r # results, w2)) = Inr (rs, w')"
    by simp
  then obtain rs' where "run_subdirs E inp es out cache base w1 = Inr (rs', w')" "rs = r # rs'"
    by (cases "run_subdirs E inp es out cache base w1") (auto simp: bind_err_def)
  with pd show ?thesis by (rule that)
qed

lemma mirror_lemma:
  "(\<forall>h w'. process_directory E inp entries out cache base w = Inr (h, w') \<longrightarrow>
      out = out0 @ rel \<longrightarrow>
      later w w' \<and> (\<forall>d \<in> set (directories rel entries). is_dir (ofs w') (out0 @ d)))"
  "(\<forall>rs w'. run_subdirs E inp entries out cache base w = Inr (rs, w') \<longrightarrow>
      out = out0 @ rel \<longrightarrow>
      later w w' \<and>
      (\<forall>d \<in> set (directories_below rel entries). is_dir (ofs w') (out0 @ d)))"
proof (induction E inp entries out cache base w and E inp entries out cache base w
    arbitrary: rel and rel rule: process_directory_run_subdirs.induct)
  case (1 E input_path entries output_path conversion_hashes base w)
  show ?case
  proof (intro allI impI)
    fix h w'
    assume run: "process_directory E input_path entries output_path conversion_hashes base w
                   = Inr (h, w')"
      and out: "output_path = out0 @ rel"
    let ?w3 = "w\<lparr>ofs := fs, next_obj := Suc (next_obj w),
            trace := trace w @ [Mkdir output_path,
                                NewSemaphore (next_obj w) MAX_CONCURRENT_OPERATIONS]\<rparr>"
    from run obtain fs nh w4 rs where
      m: "mkdir_parents output_path (ofs w) = Inr fs"
      and rf: "run_files E input_path output_path conversion_hashes base (next_obj w) entries []
         (w\<lparr>ofs := fs, next_obj := Suc (next_obj w),
            trace := trace w @ [Mkdir output_path,
                                NewSemaphore (next_obj w) MAX_CONCURRENT_OPERATIONS]\<rparr>)
         = Inr (nh, w4)"
      and rs: "run_subdirs E input_path entries output_path conversion_hashes base w4
                 = Inr (rs, w')"
      and h: "h = foldl dict_update nh rs"
      by (rule process_directory_Inr)
    from mkdir_parents_Inr [OF m] have d: "is_dir fs output_path" and g1: "grows (ofs w) fs"
      by simp_all
    from g1 have l1: "later w (w\<lparr>ofs := fs, next_obj := Suc (next_obj w),
            trace := trace w @ [Mkdir output_path,
                                NewSemaphore (next_obj w) MAX_CONCURRENT_OPERATIONS]\<rparr>)"
      by (simp add: later_def)
    from run_files_later [OF rf] have l2: "later (w\<lparr>ofs := fs, next_obj := Suc (next_obj w),
            trace := trace w @ [Mkdir output_path,
                                NewSemaphore (next_obj w) MAX_CONCURRENT_OPERATIONS]\<rparr>) w4" .
    have "\<forall>rs w'. run_subdirs E input_path entries output_path conversion_hashes base w4
            = Inr (rs, w') \<longrightarrow> output_path = out0 @ rel \<longrightarrow>
            later w4 w' \<and>
            (\<forall>d \<in> set (directories_below rel entries). is_dir (ofs w') (out0 @ d))"
      by (rule "1.IH" [OF refl refl prod.collapse refl])
    with rs out
    have l3: "later w4 w'"
      and below: "\<forall>d \<in> set (directories_below rel entries). is_dir (ofs w') (out0 @ d)"
      by blast+
    from later_trans [OF later_trans [OF l1 l2] l3] have l: "later w w'" .
    from l2 l3 have "grows fs (ofs w')"
      by (auto simp: later_def intro: grows_trans)
    with d out have "is_dir (ofs w') (out0 @ rel)" by (simp add: grows_def)
    with l below
    show "later w w' \<and> (\<forall>d \<in> set (directories rel entries). is_dir (ofs w') (out0 @ d))"
      by simp
  qed
next
  case (2 E input_path output_path conversion_hashes base w)
  then show ?case by simp
next
  case (3 E input_path name c es output_path conversion_hashes base w)
  then show ?case by simp
next
  case (4 E input_path name sub es output_path conversion_hashes base w)
  show ?case
  proof (intro allI impI)
    fix rs w'
    assume run: "run_subdirs E input_path ((name, Dir sub) # es) output_path conversion_hashes
                   base w = Inr (rs, w')"
      and out: "output_path = out0 @ rel"
    from run obtain r w1 rs' where
      pd: "process_directory E (input_path @ [name]) sub (output_path @ [name])
             conversion_hashes base w = Inr (r, w1)"
      and rest: "run_subdirs E input_path es output_path conversion_hashes base w1
                   = Inr (rs', w')"
      and "rs = r # rs'"
      by (rule run_subdirs_Dir_Inr)
    from "4.IH"(1) [of "rel @ [name]"] pd out
    have l1: "later w w1"
      and d1: "\<forall>d \<in> set (directories (rel @ [name]) sub). is_dir (ofs w1) (out0 @ d)"
      by simp_all
    have "\<forall>rs w'. run_subdirs E input_path es output_path conversion_hashes base w1
            = Inr (rs, w') \<longrightarrow> output_path = out0 @ rel \<longrightarrow>
            later w1 w' \<and>
            (\<forall>d \<in> set (directories_below rel es). is_dir (ofs w') (out0 @ d))"
      by (rule "4.IH"(2))
    with rest out
    have l2: "later w1 w'"
      and d2: "\<forall>d \<in> set (directories_below rel es). is_dir (ofs w') (out0 @ d)"
      by blast+
    from d1 l2 have "\<forall>d \<in> set (directories (rel @ [name]) sub). is_dir (ofs w') (out0 @ d)"
      by (simp add: later_def grows_def)
    with d2 later_trans [OF l1 l2]
    show "later w w' \<and>
      (\<forall>d \<in> set (directories_below rel ((name, Dir sub) # es)). is_dir (ofs w') (out0 @ d))"
      by auto
  qed
qed

lemma process_directory_first_event:
  assumes "process_directory E inp entries out cache base w = Inr (h, w')"
  shows "\<exists>evs. trace w' = trace w @ Mkdir out # evs"
proof -
  from assms obtain fs nh w4 rs where
    m: "mkdir_parents out (ofs w) = Inr fs"
    and rf: "run_files E inp out cache base (next_obj w) entries []
       (w\<lparr>ofs := fs, next_obj := Suc (next_obj w),
          trace := trace w @ [Mkdir out, NewSemaphore (next_obj w) MAX_CONCURRENT_OPERATIONS]\<rparr>)
       = Inr (nh, w4)"
    and rs: "run_subdirs E inp entries out cache base w4 = Inr (rs, w')"
    and h: "h = foldl dict_update nh rs"
    by (rule process_directory_Inr)
  from run_files_later [OF rf] obtain evs1 where
    "trace w4 = (trace w @ [Mkdir out, NewSemaphore (next_obj w) MAX_CONCURRENT_OPERATIONS]) @ evs1"
    by (auto simp: later_def)
  moreover from mirror_lemma(2) [of E inp entries out cache base w4 out "[]"] rs
  obtain evs2 where "trace w' = trace w4 @ evs2"
    by (auto simp: later_def)
  ultimately show ?thesis by simp
qed

text \<open>
  C10. When \<open>process_directory\<close> returns, the output directory has a directory for every
  directory of the input tree, the input root and the directories without PNG files among
  them; and the first thing a call does is to make its output directory (with its parents):
  when that fails the call raises, and nothing at that level has been processed.
\<close>

theorem process_directory_mirrors_tree:
  assumes "process_directory E inp entries out cache base w = Inr (h, w')"
  shows "(\<forall>d \<in> set (directories [] entries). is_dir (ofs w') (out @ d)) \<and>
         (\<exists>evs. trace w' = trace w @ Mkdir out # evs)"
  using mirror_lemma(1) [of E inp entries out cache base w out "[]"] assms
    process_directory_first_event [OF assms]
  by simp

lemma sample_tree_runs:
  "(case process_directory toy_env [''in''] sample_tree [''out''] [] [''in''] fresh_world of
      Inl e \<Rightarrow> False | Inr r \<Rightarrow> True)"
  by code_simp

theorem process_directory_mirrors_tree_witness:
  "\<exists>h w'. process_directory toy_env [''in''] sample_tree [''out''] [] [''in''] fresh_world
             = Inr (h, w') \<and>
     is_dir (ofs w') [''out''] \<and> is_dir (ofs w') [''out'', ''d''] \<and>
     is_dir (ofs w') [''out'', ''d'', ''e''] \<and>
     (\<exists>evs. trace w' = trace fresh_world @ Mkdir [''out''] # evs)"
proof -
  from sample_tree_runs obtain h w' where
    run: "process_directory toy_env [''in''] sample_tree [''out''] [] [''in''] fresh_world
            = Inr (h, w')"
    by (cases "process_directory toy_env [''in''] sample_tree [''out''] [] [''in''] fresh_world")
       auto
  from process_directory_mirrors_tree [OF run] run show ?thesis
    by (auto simp: sample_tree_def)
qed

end
